theory Spec2Isabelle
  imports Main
begin

section \<open>Data model of the Game class\<close>

text \<open>
  The rules of the game as the class \<open>Game\<close> implements them: the grid, the search for a
  path (\<open>getPath\<close>), the detection and removal of lines of five (\<open>popFives\<close>), the spawning
  of new balls (\<open>randomCells\<close>) and the click handler (\<open>handleClicks\<close>) with its timer
  callback. What the code does to the page only to show the game (style properties, the
  preview elements, the 750 ms delay, the lock of pointer events) is left out; what it reads
  back from the page, the balls in the cells and their colours, is part of the state.

  Coordinates are the source's \<open>{x, y}\<close> objects. JavaScript numbers that only ever hold
  small integers are modelled as \<open>int\<close> (coordinates become negative in neighbour
  computations) or \<open>nat\<close> (counters that only grow).
\<close>

type_synonym Coordinates = "int \<times> int"

record PathfindingResult =
  path :: "Coordinates list"
  found :: bool

datatype Color = black | white | red | lime | blue | orange | yellow

definition Game_size :: int where
  "Game_size = 9"

definition ballCount :: int where
  "ballCount = 3"

definition colors :: "Color list" where
  "colors = [black, white, red, lime, blue, orange, yellow]"

text \<open>
  The static fields of \<open>Game\<close>. \<open>cells\<close> holds, for every cell element, the colours of
  its child elements (the balls) in document order. \<open>Game.selected\<close> and
  \<open>Game.selectedIndex\<close> are always assigned together; the selected ball is identified by
  the cell it sits in. \<open>ended\<close> records that \<open>Game.end()\<close> has run, \<open>randomCalls\<close>
  counts the calls of \<open>Math.random()\<close> made so far.
\<close>

record Game =
  field :: "int list list"
  cells :: "Color list list list"
  selectedIndex :: "Coordinates option"
  nextColors :: "Color list"
  points :: nat
  ended :: bool
  randomCalls :: nat

definition at2 :: "'a list list \<Rightarrow> Coordinates \<Rightarrow> 'a" where
  "at2 a c = a ! nat (fst c) ! nat (snd c)"

definition put2 :: "'a list list \<Rightarrow> Coordinates \<Rightarrow> 'a \<Rightarrow> 'a list list" where
  "put2 a c v = a[nat (fst c) := (a ! nat (fst c))[nat (snd c) := v]]"

definition inBounds :: "Coordinates \<Rightarrow> bool" where
  "inBounds c = (fst c \<ge> 0 \<and> fst c < Game_size \<and> snd c \<ge> 0 \<and> snd c < Game_size)"

definition allCells :: "Coordinates list" where
  "allCells = concat (map (\<lambda>i. map (\<lambda>j. (i, j)) [0..Game_size - 1]) [0..Game_size - 1])"

definition countEmpty :: "int list list \<Rightarrow> nat" where
  "countEmpty f = length (filter (\<lambda>cell. cell = 0) (concat f))"

definition Game_end :: "Game \<Rightarrow> Game" where
  "Game_end g = g\<lparr>ended := True\<rparr>"

text \<open>
  \<open>Math.floor(Math.random() * n)\<close>: the random source is a sequence of numbers, the
  \<open>k\<close>-th call reads its \<open>k\<close>-th element, reduced into the range \<open>0 ..< n\<close>.
\<close>

definition randomInt :: "(nat \<Rightarrow> nat) \<Rightarrow> nat \<Rightarrow> nat \<Rightarrow> nat" where
  "randomInt random k n = random k mod n"

section \<open>getPath\<close>

definition pathDirections :: "Coordinates list" where
  "pathDirections = [(0, 1), (0, -1), (1, 0), (-1, 0)]"

definition neighbours :: "Coordinates \<Rightarrow> Coordinates list" where
  "neighbours current = map (\<lambda>d. (fst current + fst d, snd current + snd d)) pathDirections"

text \<open>The \<open>for\<close> loop over the directions: the entries pushed for one dequeued cell.\<close>

definition explore ::
  "int list list \<Rightarrow> Coordinates set \<Rightarrow> Coordinates \<Rightarrow> Coordinates list
    \<Rightarrow> (Coordinates \<times> Coordinates list) list" where
  "explore f visited current p =
     map (\<lambda>n. (n, p @ [current]))
       (filter (\<lambda>n. inBounds n \<and> n \<notin> visited \<and> at2 f n = 0) (neighbours current))"

text \<open>
  The \<open>while (queue.length > 0)\<close> loop. Nothing in its shape bounds the number of
  iterations, so it is a partial function: \<open>None\<close> stands for a loop that never returns.
\<close>

partial_function (option) getPath_loop ::
  "int list list \<Rightarrow> Coordinates \<Rightarrow> (Coordinates \<times> Coordinates list) list
    \<Rightarrow> Coordinates set \<Rightarrow> PathfindingResult option" where
  "getPath_loop f dest queue visited =
     (case queue of
        [] \<Rightarrow> Some \<lparr>path = [], found = False\<rparr>
      | (current, p) # rest \<Rightarrow>
          if current = dest then Some \<lparr>path = p @ [current], found = True\<rparr>
          else getPath_loop f dest
                 (rest @ explore f (insert current visited) current p)
                 (insert current visited))"

declare getPath_loop.simps [code]

definition getPath :: "Game \<Rightarrow> Coordinates \<Rightarrow> Coordinates \<Rightarrow> PathfindingResult option" where
  "getPath g start dest = getPath_loop (field g) dest [(start, [])] {}"

section \<open>popFives\<close>

text \<open>
  \<open>ballColors\<close> holds for every cell the colour of its first child, or \<open>null\<close> for a cell
  without children.
\<close>

definition firstChild :: "Color list \<Rightarrow> Color option" where
  "firstChild children = (case children of [] \<Rightarrow> None | c # _ \<Rightarrow> Some c)"

definition ballColors :: "Color list list list \<Rightarrow> Color option list list" where
  "ballColors cs = map (map firstChild) cs"

definition lineDirections :: "Coordinates list" where
  "lineDirections = [(1, 0), (0, 1), (1, 1), (1, -1)]"

text \<open>The \<open>for (let i = 0; i < 5; i++)\<close> loop of \<open>checkDirection\<close>, with its \<open>break\<close>.\<close>

function checkLoop ::
  "Color option list list \<Rightarrow> Color \<Rightarrow> int \<Rightarrow> int \<Rightarrow> int \<Rightarrow> int \<Rightarrow> nat \<Rightarrow> nat
    \<Rightarrow> Coordinates list \<Rightarrow> nat \<times> Coordinates list" where
  "checkLoop bc color x y incrX incrY i count tempDelete =
     (if i < 5 then
        let newX = x + int i * incrX; newY = y + int i * incrY in
        if newX \<ge> 0 \<and> newX < Game_size \<and> newY \<ge> 0 \<and> newY < Game_size
           \<and> at2 bc (newX, newY) = Some color
        then checkLoop bc color x y incrX incrY (i + 1) (count + 1) (tempDelete @ [(newX, newY)])
        else (count, tempDelete)
      else (count, tempDelete))"
  by pat_completeness auto
termination
  by (relation "measure (\<lambda>(bc, color, x, y, incrX, incrY, i, count, tempDelete). 5 - i)") auto

declare checkLoop.simps [simp del]

text \<open>
  \<open>toDelete\<close> is a \<open>Set\<close> of keys \<open>"x,y"\<close>; the key of a coordinate pair determines the
  pair, so the set is modelled as the list of its elements in insertion order.
\<close>

definition setAdd :: "Coordinates list \<Rightarrow> Coordinates \<Rightarrow> Coordinates list" where
  "setAdd s k = (if k \<in> set s then s else s @ [k])"

definition checkDirection ::
  "Color option list list \<Rightarrow> Coordinates list \<Rightarrow> int \<Rightarrow> int \<Rightarrow> int \<Rightarrow> int \<Rightarrow> Coordinates list" where
  "checkDirection bc toDelete x y incrX incrY =
     (case at2 bc (x, y) of
        None \<Rightarrow> toDelete
      | Some color \<Rightarrow>
          (case checkLoop bc color x y incrX incrY 0 0 [] of
             (count, tempDelete) \<Rightarrow>
               if count \<ge> 5 then fold (\<lambda>c s. setAdd s c) tempDelete toDelete else toDelete))"

text \<open>The nested loops over all cells and all four directions; the result is \<open>toDelete\<close>.\<close>

definition findFives :: "Color option list list \<Rightarrow> Coordinates list" where
  "findFives bc =
     fold (\<lambda>c s. fold (\<lambda>d s'. checkDirection bc s' (fst c) (snd c) (fst d) (snd d)) lineDirections s)
       allCells []"

definition removeMarked :: "Coordinates \<Rightarrow> Game \<Rightarrow> Game" where
  "removeMarked c g =
     (if at2 (field g) c = -1
      then g\<lparr>cells := put2 (cells g) c [], field := put2 (field g) c 0, points := points g + 1\<rparr>
      else g)"

definition popFives :: "Game \<Rightarrow> bool \<times> Game" where
  "popFives g =
     (let toDelete = findFives (ballColors (cells g));
          g1 = g\<lparr>field := fold (\<lambda>k f. put2 f k (-1)) toDelete (field g)\<rparr>;
          popped = (toDelete \<noteq> []);
          g2 = fold removeMarked allCells g1;
          emptyCells = countEmpty (field g2)
      in (popped, if emptyCells = 0 then Game_end g2 else g2))"

section \<open>randomCells\<close>

text \<open>\<open>Game.nextColors.pop()\<close>: the last element, or \<open>undefined\<close> on an empty array.\<close>

definition pop :: "'a list \<Rightarrow> 'a option \<times> 'a list" where
  "pop xs = (if xs = [] then (None, []) else (Some (last xs), butlast xs))"

text \<open>The \<open>Ball\<close> constructor: the colour and the number of \<open>Math.random()\<close> calls after it.\<close>

definition newBall :: "(nat \<Rightarrow> nat) \<Rightarrow> nat \<Rightarrow> Color option \<Rightarrow> Color \<times> nat" where
  "newBall random k colorOverride =
     (case colorOverride of
        Some c \<Rightarrow> (c, k)
      | None \<Rightarrow> (colors ! randomInt random k (length colors), k + 1))"

definition placeBall :: "(nat \<Rightarrow> nat) \<Rightarrow> Coordinates \<Rightarrow> Game \<Rightarrow> Game" where
  "placeBall random rand g =
     (case pop (nextColors g) of
        (colorOverride, rest) \<Rightarrow>
          (case newBall random (randomCalls g) colorOverride of
             (color, k) \<Rightarrow>
               g\<lparr>field := put2 (field g) rand 1,
                 nextColors := rest,
                 cells := put2 (cells g) rand (at2 (cells g) rand @ [color]),
                 randomCalls := k\<rparr>))"

definition drawCell :: "(nat \<Rightarrow> nat) \<Rightarrow> nat \<Rightarrow> Coordinates" where
  "drawCell random k =
     (int (randomInt random k (nat Game_size)), int (randomInt random (k + 1) (nat Game_size)))"

text \<open>
  The placement loop \<open>for (let i = Game.ballCount; i > 0; i--)\<close>, whose body may increment
  \<open>i\<close> again. The result is \<open>(returned early after Game.end(), obstacles, state)\<close>.
\<close>

partial_function (option) placeLoop ::
  "(nat \<Rightarrow> nat) \<Rightarrow> int \<Rightarrow> nat \<Rightarrow> Coordinates list \<Rightarrow> Game
    \<Rightarrow> (bool \<times> Coordinates list \<times> Game) option" where
  "placeLoop random i tryCounter obstacles g =
     (if i > 0 then
        let rand = drawCell random (randomCalls g);
            g1 = g\<lparr>randomCalls := randomCalls g + 2\<rparr>
        in if at2 (field g1) rand = 0
           then placeLoop random (i - 1) 0 (obstacles @ [rand]) (placeBall random rand g1)
           else if int tryCounter > Game_size * Game_size
           then (if countEmpty (field g1) = 0 then Some (True, obstacles, Game_end g1)
                 else placeLoop random (i - 1) tryCounter obstacles g1)
           else placeLoop random (i + 1 - 1) (tryCounter + 1) obstacles g1
      else Some (False, obstacles, g))"

declare placeLoop.simps [code]

definition nextColorsRefill :: "(nat \<Rightarrow> nat) \<Rightarrow> Game \<Rightarrow> Game" where
  "nextColorsRefill random g =
     g\<lparr>nextColors :=
         map (\<lambda>i. colors ! randomInt random (randomCalls g + i) (length colors)) [0..<nat ballCount],
       randomCalls := randomCalls g + nat ballCount\<rparr>"

definition randomCells :: "(nat \<Rightarrow> nat) \<Rightarrow> Game \<Rightarrow> Game option" where
  "randomCells random g =
     (case placeLoop random ballCount 0 [] g of
        None \<Rightarrow> None
      | Some (returned, obstacles, g1) \<Rightarrow>
          if returned then Some g1
          else Some (snd (popFives (nextColorsRefill random g1))))"

section \<open>handleClicks\<close>

text \<open>
  \<open>checkMovement\<close> finds the cell that contains the ball; the handler calls it with the ball
  of the clicked cell, so these are the coordinates of the click.
\<close>

definition checkMovement :: "Game \<Rightarrow> Coordinates \<Rightarrow> bool" where
  "checkMovement g ball =
     (\<exists>n \<in> set (neighbours ball). inBounds n \<and> at2 (field g) n = 0)"

text \<open>
  \<open>clicked.appendChild(Game.selected)\<close> moves the selected ball, the first child of the
  cell at \<open>selectedIndex\<close>, to the end of the clicked cell's children.
\<close>

definition moveBall :: "Color list list list \<Rightarrow> Coordinates \<Rightarrow> Coordinates \<Rightarrow> Color list list list" where
  "moveBall cs src dst =
     (let ball = take 1 (at2 cs src);
          cs1 = put2 cs src (drop 1 (at2 cs src))
      in put2 cs1 dst (at2 cs1 dst @ ball))"

text \<open>
  The synchronous part of the click handler. \<open>ball\<close> is the first ball of the clicked cell,
  and it is the selected ball when the clicked cell is the selected one. The second
  component of the result is \<open>Some popped\<close> when the handler has scheduled its timer
  callback, which is \<open>moveTimeout\<close>.
\<close>

definition handleClicks :: "Game \<Rightarrow> Coordinates \<Rightarrow> (Game \<times> bool option) option" where
  "handleClicks g coords =
     (if firstChild (at2 (cells g) coords) \<noteq> None then
        (if selectedIndex g = Some coords then Some (g\<lparr>selectedIndex := None\<rparr>, None)
         else if checkMovement g coords then Some (g\<lparr>selectedIndex := Some coords\<rparr>, None)
         else Some (g, None))
      else
        (case selectedIndex g of
           None \<Rightarrow> Some (g, None)
         | Some sel \<Rightarrow>
             (case getPath g sel coords of
                None \<Rightarrow> None
              | Some result \<Rightarrow>
                  if found result then
                    (case popFives
                            (g\<lparr>cells := moveBall (cells g) sel coords,
                              field := put2 (put2 (field g) coords 1) sel 0\<rparr>) of
                       (popped, g1) \<Rightarrow> Some (g1\<lparr>selectedIndex := None\<rparr>, Some popped))
                  else Some (g\<lparr>selectedIndex := None\<rparr>, None))))"

definition moveTimeout :: "(nat \<Rightarrow> nat) \<Rightarrow> bool \<Rightarrow> Game \<Rightarrow> Game option" where
  "moveTimeout random popped g = (if \<not> popped then randomCells random g else Some g)"

section \<open>Vocabulary of the properties\<close>

text \<open>
  Two cells are orthogonally adjacent when they differ by one step along exactly one axis.
  A cell is free when it lies on the board and the grid holds \<open>0\<close> there.
\<close>

definition adjacent :: "Coordinates \<Rightarrow> Coordinates \<Rightarrow> bool" where
  "adjacent a b = (\<bar>fst a - fst b\<bar> + \<bar>snd a - snd b\<bar> = 1)"

definition freeCell :: "int list list \<Rightarrow> Coordinates \<Rightarrow> bool" where
  "freeCell f c = (inBounds c \<and> at2 f c = 0)"

text \<open>
  A walk from \<open>start\<close>: a non-empty sequence of cells that begins at \<open>start\<close>, moves
  between orthogonally adjacent cells, and whose cells after the first are all free. A route
  is a walk that ends at \<open>dest\<close>.
\<close>

definition walk :: "int list list \<Rightarrow> Coordinates \<Rightarrow> Coordinates list \<Rightarrow> bool" where
  "walk f start w =
     (w \<noteq> [] \<and> hd w = start \<and> successively adjacent w \<and> (\<forall>c \<in> set (tl w). freeCell f c))"

definition route :: "int list list \<Rightarrow> Coordinates \<Rightarrow> Coordinates \<Rightarrow> Coordinates list \<Rightarrow> bool" where
  "route f start dest w = (walk f start w \<and> last w = dest)"

text \<open>The well-formed shape of \<open>Game.field\<close> and \<open>Game.cells\<close>: nine rows of nine cells.\<close>

definition gridShape :: "'a list list \<Rightarrow> bool" where
  "gridShape a = (length a = nat Game_size \<and> (\<forall>row \<in> set a. length row = nat Game_size))"

text \<open>
  The values \<open>Game.field\<close> holds between operations: nine rows of nine cells, each \<open>0\<close>
  (empty) or \<open>1\<close> (occupied); \<open>-1\<close> occurs only inside \<open>popFives\<close>.
\<close>

definition fieldOk :: "int list list \<Rightarrow> bool" where
  "fieldOk f = (gridShape f \<and> (\<forall>c \<in> set allCells. at2 f c = 0 \<or> at2 f c = 1))"

text \<open>
  The window of five consecutive cells that starts at \<open>c\<close> and steps in direction \<open>d\<close>,
  and the condition that it is a line of five: the first cell is occupied, and every cell of
  the window is on the board and holds a ball of the first cell's colour.
\<close>

definition window :: "Coordinates \<Rightarrow> Coordinates \<Rightarrow> Coordinates list" where
  "window c d = map (\<lambda>i. (fst c + int i * fst d, snd c + int i * snd d)) [0..<5]"

definition fiveInLine :: "Color option list list \<Rightarrow> Coordinates \<Rightarrow> Coordinates \<Rightarrow> bool" where
  "fiveInLine bc c d =
     (at2 bc c \<noteq> None \<and> (\<forall>p \<in> set (window c d). inBounds p \<and> at2 bc p = at2 bc c))"

text \<open>
  Cells that can be filled one after the other: each is on the board and empty in the grid
  in which the earlier ones have been marked occupied.
\<close>

fun placedOk :: "int list list \<Rightarrow> Coordinates list \<Rightarrow> bool" where
  "placedOk f [] = True"
| "placedOk f (c # cs) = (inBounds c \<and> at2 f c = 0 \<and> placedOk (put2 f c 1) cs)"

text \<open>Appending one ball of the given colour to each of the given cells, in order.\<close>

fun addBalls :: "Color list list list \<Rightarrow> Coordinates list \<Rightarrow> Color list \<Rightarrow> Color list list list" where
  "addBalls cs (c # rest) (col # cols) = addBalls (put2 cs c (at2 cs c @ [col])) rest cols"
| "addBalls cs _ _ = cs"

subsection \<open>Invariants of the search loop\<close>

text \<open>
  Every queue entry carries a walk from the start to its cell; the path lengths in the queue
  are ascending and differ by at most one; every route to the destination has a queue entry
  on it that is no deeper than its position on the route and after which the route has not
  been visited. The loop measure counts the unvisited cells and the queue entries whose cell
  is already visited.
\<close>

definition entriesValid ::
  "int list list \<Rightarrow> Coordinates \<Rightarrow> (Coordinates \<times> Coordinates list) list \<Rightarrow> bool" where
  "entriesValid f start queue = (\<forall>e \<in> set queue. walk f start (snd e @ [fst e]))"

definition depthsOrdered :: "(Coordinates \<times> Coordinates list) list \<Rightarrow> bool" where
  "depthsOrdered queue =
     (sorted (map (\<lambda>e. length (snd e)) queue)
      \<and> (\<forall>e \<in> set queue. length (snd e) \<le> length (snd (hd queue)) + 1))"

definition frontier ::
  "int list list \<Rightarrow> Coordinates \<Rightarrow> Coordinates \<Rightarrow> (Coordinates \<times> Coordinates list) list
    \<Rightarrow> Coordinates set \<Rightarrow> bool" where
  "frontier f start dest queue visited =
     (\<forall>w. route f start dest w \<longrightarrow>
        (\<exists>pre x post p. w = pre @ x # post \<and> (x, p) \<in> set queue
           \<and> length p \<le> length pre \<and> set post \<inter> visited = {}))"

definition loopMeasure :: "((Coordinates \<times> Coordinates list) list \<times> Coordinates set) \<Rightarrow> nat \<times> nat" where
  "loopMeasure = (\<lambda>(queue, visited).
     (card ((set allCells \<union> fst ` set queue) - visited),
      length (filter (\<lambda>e. fst e \<in> visited) queue)))"

section \<open>Example states\<close>

text \<open>
  The state the static initialisers of \<open>Game\<close> set up: an empty board, nothing selected,
  an empty queue, no points.
\<close>

definition initialGame :: Game where
  "initialGame =
     \<lparr>field = replicate (nat Game_size) (replicate (nat Game_size) 0),
      cells = replicate (nat Game_size) (replicate (nat Game_size) []),
      selectedIndex = None, nextColors = [], points = 0, ended = False, randomCalls = 0\<rparr>"

text \<open>
  A board on which the ball at \<open>(0, 0)\<close> has to walk around the ball at \<open>(0, 1)\<close>.
\<close>

definition detourGame :: Game where
  "detourGame =
     \<lparr>field = [[1, 1, 0, 0, 0, 0, 0, 0, 0], [0, 0, 0, 0, 0, 0, 0, 0, 0],
               [0, 0, 0, 0, 0, 0, 0, 0, 0], [0, 0, 0, 0, 0, 0, 0, 0, 0],
               [0, 0, 0, 0, 0, 0, 0, 0, 0], [0, 0, 0, 0, 0, 0, 0, 0, 0],
               [0, 0, 0, 0, 0, 0, 0, 0, 0], [0, 0, 0, 0, 0, 0, 0, 0, 0],
               [0, 0, 0, 0, 0, 0, 0, 0, 0]],
      cells = [[[red], [blue], [], [], [], [], [], [], []], [[], [], [], [], [], [], [], [], []],
               [[], [], [], [], [], [], [], [], []], [[], [], [], [], [], [], [], [], []],
               [[], [], [], [], [], [], [], [], []], [[], [], [], [], [], [], [], [], []],
               [[], [], [], [], [], [], [], [], []], [[], [], [], [], [], [], [], [], []],
               [[], [], [], [], [], [], [], [], []]],
      selectedIndex = Some (0, 0), nextColors = [red, lime, blue], points = 0,
      ended = False, randomCalls = 0\<rparr>"

text \<open>
  A board on which the selected ball at \<open>(0, 0)\<close> can step to \<open>(0, 1)\<close> only: the balls at
  \<open>(0, 2)\<close>, \<open>(1, 0)\<close> and \<open>(1, 1)\<close> close the corner.
\<close>

definition cornered :: Game where
  "cornered =
     \<lparr>field = [[1, 0, 1, 0, 0, 0, 0, 0, 0], [1, 1, 0, 0, 0, 0, 0, 0, 0],
               [0, 0, 0, 0, 0, 0, 0, 0, 0], [0, 0, 0, 0, 0, 0, 0, 0, 0],
               [0, 0, 0, 0, 0, 0, 0, 0, 0], [0, 0, 0, 0, 0, 0, 0, 0, 0],
               [0, 0, 0, 0, 0, 0, 0, 0, 0], [0, 0, 0, 0, 0, 0, 0, 0, 0],
               [0, 0, 0, 0, 0, 0, 0, 0, 0]],
      cells = [[[red], [], [blue], [], [], [], [], [], []],
               [[lime], [white], [], [], [], [], [], [], []],
               [[], [], [], [], [], [], [], [], []], [[], [], [], [], [], [], [], [], []],
               [[], [], [], [], [], [], [], [], []], [[], [], [], [], [], [], [], [], []],
               [[], [], [], [], [], [], [], [], []], [[], [], [], [], [], [], [], [], []],
               [[], [], [], [], [], [], [], [], []]],
      selectedIndex = Some (0, 0), nextColors = [red, lime, blue], points = 0,
      ended = False, randomCalls = 0\<rparr>"

text \<open>
  A board whose only balls are five balls of one colour at \<open>(0, 0)\<close> .. \<open>(0, 4)\<close>.
\<close>

definition fiveRow :: "Color \<Rightarrow> Game" where
  "fiveRow col =
     \<lparr>field = [[1, 1, 1, 1, 1, 0, 0, 0, 0], [0, 0, 0, 0, 0, 0, 0, 0, 0],
               [0, 0, 0, 0, 0, 0, 0, 0, 0], [0, 0, 0, 0, 0, 0, 0, 0, 0],
               [0, 0, 0, 0, 0, 0, 0, 0, 0], [0, 0, 0, 0, 0, 0, 0, 0, 0],
               [0, 0, 0, 0, 0, 0, 0, 0, 0], [0, 0, 0, 0, 0, 0, 0, 0, 0],
               [0, 0, 0, 0, 0, 0, 0, 0, 0]],
      cells = [[[col], [col], [col], [col], [col], [], [], [], []],
               [[], [], [], [], [], [], [], [], []],
               [[], [], [], [], [], [], [], [], []], [[], [], [], [], [], [], [], [], []],
               [[], [], [], [], [], [], [], [], []], [[], [], [], [], [], [], [], [], []],
               [[], [], [], [], [], [], [], [], []], [[], [], [], [], [], [], [], [], []],
               [[], [], [], [], [], [], [], [], []]],
      selectedIndex = None, nextColors = [red, lime, blue], points = 0,
      ended = False, randomCalls = 0\<rparr>"

text \<open>
  An empty board with three colours queued, the state after three balls have been placed
  on it at \<open>(0, 0)\<close>, \<open>(0, 1)\<close>, \<open>(0, 2)\<close>, and a random source whose cell draws are
  \<open>(0, 0)\<close>, \<open>(0, 1)\<close>, \<open>(0, 2)\<close>, ...
\<close>

definition emptyQueued :: Game where
  "emptyQueued =
     \<lparr>field = [[0, 0, 0, 0, 0, 0, 0, 0, 0], [0, 0, 0, 0, 0, 0, 0, 0, 0],
               [0, 0, 0, 0, 0, 0, 0, 0, 0], [0, 0, 0, 0, 0, 0, 0, 0, 0],
               [0, 0, 0, 0, 0, 0, 0, 0, 0], [0, 0, 0, 0, 0, 0, 0, 0, 0],
               [0, 0, 0, 0, 0, 0, 0, 0, 0], [0, 0, 0, 0, 0, 0, 0, 0, 0],
               [0, 0, 0, 0, 0, 0, 0, 0, 0]],
      cells = [[[], [], [], [], [], [], [], [], []], [[], [], [], [], [], [], [], [], []],
               [[], [], [], [], [], [], [], [], []], [[], [], [], [], [], [], [], [], []],
               [[], [], [], [], [], [], [], [], []], [[], [], [], [], [], [], [], [], []],
               [[], [], [], [], [], [], [], [], []], [[], [], [], [], [], [], [], [], []],
               [[], [], [], [], [], [], [], [], []]],
      selectedIndex = None, nextColors = [red, lime, blue], points = 0,
      ended = False, randomCalls = 0\<rparr>"

definition emptyQueuedPlaced :: Game where
  "emptyQueuedPlaced =
     emptyQueued\<lparr>field := (field emptyQueued)[0 := [1, 1, 1, 0, 0, 0, 0, 0, 0]],
                 cells := (cells emptyQueued)[0 := [[blue], [lime], [red], [], [], [], [], [], []]],
                 nextColors := [], randomCalls := 6\<rparr>"

definition rowDraws :: "nat \<Rightarrow> nat" where
  "rowDraws k = (if even k then 0 else k div 2)"

text \<open>
  Nearly full boards without any line of five. On \<open>threeLeft\<close> the cells \<open>(8, 6)\<close>,
  \<open>(8, 7)\<close>, \<open>(8, 8)\<close> are empty. On \<open>almostFull\<close> only \<open>(0, 4)\<close> is empty, next to four red
  balls in its row; \<open>lineGap\<close> is the same board with \<open>(8, 7)\<close> and \<open>(8, 8)\<close> empty as well.
\<close>

definition threeLeft :: Game where
  "threeLeft =
     \<lparr>field = [[1, 1, 1, 1, 1, 1, 1, 1, 1],
               [1, 1, 1, 1, 1, 1, 1, 1, 1],
               [1, 1, 1, 1, 1, 1, 1, 1, 1],
               [1, 1, 1, 1, 1, 1, 1, 1, 1],
               [1, 1, 1, 1, 1, 1, 1, 1, 1],
               [1, 1, 1, 1, 1, 1, 1, 1, 1],
               [1, 1, 1, 1, 1, 1, 1, 1, 1],
               [1, 1, 1, 1, 1, 1, 1, 1, 1],
               [1, 1, 1, 1, 1, 1, 0, 0, 0]],
      cells = [[[black], [white], [red], [lime], [blue], [orange], [yellow], [black], [white]],
               [[red], [lime], [blue], [orange], [yellow], [black], [white], [red], [lime]],
               [[blue], [orange], [yellow], [black], [white], [red], [lime], [blue], [orange]],
               [[yellow], [black], [white], [red], [lime], [blue], [orange], [yellow], [black]],
               [[white], [red], [lime], [blue], [orange], [yellow], [black], [white], [red]],
               [[lime], [blue], [orange], [yellow], [black], [white], [red], [lime], [blue]],
               [[orange], [yellow], [black], [white], [red], [lime], [blue], [orange], [yellow]],
               [[black], [white], [red], [lime], [blue], [orange], [yellow], [black], [white]],
               [[red], [lime], [blue], [orange], [yellow], [black], [], [], []]],
      selectedIndex = None, nextColors = [lime, blue, red], points = 0,
      ended = False, randomCalls = 0\<rparr>"

definition almostFull :: Game where
  "almostFull =
     \<lparr>field = [[1, 1, 1, 1, 0, 1, 1, 1, 1],
               [1, 1, 1, 1, 1, 1, 1, 1, 1],
               [1, 1, 1, 1, 1, 1, 1, 1, 1],
               [1, 1, 1, 1, 1, 1, 1, 1, 1],
               [1, 1, 1, 1, 1, 1, 1, 1, 1],
               [1, 1, 1, 1, 1, 1, 1, 1, 1],
               [1, 1, 1, 1, 1, 1, 1, 1, 1],
               [1, 1, 1, 1, 1, 1, 1, 1, 1],
               [1, 1, 1, 1, 1, 1, 1, 1, 1]],
      cells = [[[red], [red], [red], [red], [], [orange], [yellow], [black], [white]],
               [[red], [lime], [blue], [orange], [yellow], [black], [white], [red], [lime]],
               [[blue], [orange], [yellow], [black], [white], [red], [lime], [blue], [orange]],
               [[yellow], [black], [white], [red], [lime], [blue], [orange], [yellow], [black]],
               [[white], [red], [lime], [blue], [orange], [yellow], [black], [white], [red]],
               [[lime], [blue], [orange], [yellow], [black], [white], [red], [lime], [blue]],
               [[orange], [yellow], [black], [white], [red], [lime], [blue], [orange], [yellow]],
               [[black], [white], [red], [lime], [blue], [orange], [yellow], [black], [white]],
               [[red], [lime], [blue], [orange], [yellow], [black], [white], [red], [lime]]],
      selectedIndex = None, nextColors = [lime, blue, red], points = 0,
      ended = False, randomCalls = 0\<rparr>"

definition lineGap :: Game where
  "lineGap =
     \<lparr>field = [[1, 1, 1, 1, 0, 1, 1, 1, 1],
               [1, 1, 1, 1, 1, 1, 1, 1, 1],
               [1, 1, 1, 1, 1, 1, 1, 1, 1],
               [1, 1, 1, 1, 1, 1, 1, 1, 1],
               [1, 1, 1, 1, 1, 1, 1, 1, 1],
               [1, 1, 1, 1, 1, 1, 1, 1, 1],
               [1, 1, 1, 1, 1, 1, 1, 1, 1],
               [1, 1, 1, 1, 1, 1, 1, 1, 1],
               [1, 1, 1, 1, 1, 1, 1, 0, 0]],
      cells = [[[red], [red], [red], [red], [], [orange], [yellow], [black], [white]],
               [[red], [lime], [blue], [orange], [yellow], [black], [white], [red], [lime]],
               [[blue], [orange], [yellow], [black], [white], [red], [lime], [blue], [orange]],
               [[yellow], [black], [white], [red], [lime], [blue], [orange], [yellow], [black]],
               [[white], [red], [lime], [blue], [orange], [yellow], [black], [white], [red]],
               [[lime], [blue], [orange], [yellow], [black], [white], [red], [lime], [blue]],
               [[orange], [yellow], [black], [white], [red], [lime], [blue], [orange], [yellow]],
               [[black], [white], [red], [lime], [blue], [orange], [yellow], [black], [white]],
               [[red], [lime], [blue], [orange], [yellow], [black], [white], [], []]],
      selectedIndex = None, nextColors = [lime, blue, red], points = 0,
      ended = False, randomCalls = 0\<rparr>"

text \<open>
  Random sources: \<open>cycleDraws\<close> only draws cells of the rows and columns \<open>0\<close> .. \<open>6\<close>;
  the cell draws of \<open>lineDraws\<close> are \<open>(0, 4)\<close>, \<open>(8, 7)\<close>, \<open>(8, 8)\<close> and then \<open>(0, 0)\<close> for ever.
\<close>

definition cycleDraws :: "nat \<Rightarrow> nat" where
  "cycleDraws k = k mod 7"

definition lineDraws :: "nat \<Rightarrow> nat" where
  "lineDraws k = (if k < 6 then [0, 4, 8, 7, 8, 8] ! k else 0)"

text \<open>
  The state in which \<open>randomCells\<close> leaves \<open>almostFull\<close> under \<open>lineDraws\<close>, and the state of
  \<open>lineGap\<close> after the placement loop under \<open>lineDraws\<close>.
\<close>

definition almostFullEnd :: Game where
  "almostFullEnd =
     almostFull\<lparr>field := put2 (field almostFull) (0, 4) 1,
                cells := put2 (cells almostFull) (0, 4) [red],
                nextColors := [lime, blue], randomCalls := 168, ended := True\<rparr>"

definition lineGapPlaced :: Game where
  "lineGapPlaced =
     lineGap\<lparr>field := put2 (put2 (put2 (field lineGap) (0, 4) 1) (8, 7) 1) (8, 8) 1,
             cells := put2 (put2 (put2 (cells lineGap) (0, 4) [red]) (8, 7) [blue]) (8, 8) [lime],
             nextColors := [], randomCalls := 6\<rparr>"

section \<open>Path finding: the degenerate query\<close>

text \<open>
  C5. For every grid and every coordinate \<open>c\<close>, the query from \<open>c\<close> to \<open>c\<close> returns
  \<open>found = true\<close> with the single-cell path \<open>[c]\<close>, whatever the occupancy of \<open>c\<close> and of
  its neighbours.
\<close>

theorem getPath_same_cell:
  "getPath g c c = Some \<lparr>path = [c], found = True\<rparr>"
  by (simp add: getPath_def getPath_loop.simps)

section \<open>The search loop: termination and invariants\<close>

lemma set_allCells: "set allCells = {c. inBounds c}"
  by (force simp: allCells_def inBounds_def Game_size_def)

lemma explore_cells:
  "e \<in> set (explore f visited current p) \<Longrightarrow>
     inBounds (fst e) \<and> fst e \<notin> visited \<and> at2 f (fst e) = 0 \<and> snd e = p @ [current]
     \<and> fst e \<in> set (neighbours current)"
  by (auto simp: explore_def)

lemma loopMeasure_step:
  assumes "current \<noteq> dest"
  shows "(loopMeasure (rest @ explore f (insert current visited) current p, insert current visited),
          loopMeasure ((current, p) # rest, visited)) \<in> less_than <*lex*> less_than"
proof -
  let ?new = "explore f (insert current visited) current p"
  let ?A = "(set allCells \<union> fst ` set (rest @ ?new)) - insert current visited"
  let ?B = "(set allCells \<union> fst ` set ((current, p) # rest)) - visited"
  have fin: "finite ?B" by simp
  have newc: "fst ` set ?new \<subseteq> set allCells"
    using explore_cells[of _ f "insert current visited" current p] by (auto simp: set_allCells)
  have sub: "?A \<subseteq> ?B" using newc by auto
  have nofilter: "filter (\<lambda>e. fst e \<in> insert current visited) ?new = []"
    using explore_cells[of _ f "insert current visited" current p] by (auto simp: filter_empty_conv)
  show ?thesis
  proof (cases "current \<in> visited")
    case False
    then have "current \<in> ?B" "current \<notin> ?A" by auto
    with sub have "?A \<subset> ?B" by blast
    then have "card ?A < card ?B" using fin by (rule psubset_card_mono[rotated])
    then show ?thesis by (simp add: loopMeasure_def)
  next
    case True
    then have iv: "insert current visited = visited" by auto
    have "card ?A \<le> card ?B" using sub fin by (rule card_mono[rotated])
    moreover have "length (filter (\<lambda>e. fst e \<in> insert current visited) (rest @ ?new))
        < length (filter (\<lambda>e. fst e \<in> visited) ((current, p) # rest))"
      using nofilter True by (simp add: iv)
    ultimately show ?thesis by (auto simp: loopMeasure_def)
  qed
qed

lemma getPath_loop_induct:
  assumes step: "\<And>queue visited.
     (\<And>current p rest. queue = (current, p) # rest \<Longrightarrow> current \<noteq> dest \<Longrightarrow>
        P (rest @ explore f (insert current visited) current p) (insert current visited))
     \<Longrightarrow> P queue visited"
  shows "P queue visited"
proof -
  have "wf (inv_image (less_than <*lex*> less_than) loopMeasure)"
    by (intro wf_inv_image wf_lex_prod wf_less_than)
  then have "P (fst s) (snd s)" for s
  proof (induction s rule: wf_induct_rule)
    case (less s)
    show ?case
    proof (rule step)
      fix current p rest
      assume q: "fst s = (current, p) # rest" and ne: "current \<noteq> dest"
      let ?s' = "(rest @ explore f (insert current (snd s)) current p, insert current (snd s))"
      have "(?s', s) \<in> inv_image (less_than <*lex*> less_than) loopMeasure"
        using loopMeasure_step[OF ne, of rest f "snd s" p] q
        by (cases s) (simp add: inv_image_def)
      from less[OF this] show "P (rest @ explore f (insert current (snd s)) current p) (insert current (snd s))"
        by simp
    qed
  qed
  from this[of "(queue, visited)"] show ?thesis by simp
qed

lemma getPath_loop_returns: "\<exists>r. getPath_loop f dest queue visited = Some r"
proof (induction queue visited rule: getPath_loop_induct[where dest = dest and f = f])
  case (1 queue visited)
  show ?case
  proof (cases queue)
    case Nil
    then show ?thesis by (simp add: getPath_loop.simps)
  next
    case (Cons e rest)
    obtain current p where e: "e = (current, p)" by (cases e)
    show ?thesis
    proof (cases "current = dest")
      case True
      then show ?thesis using Cons e by (simp add: getPath_loop.simps)
    next
      case False
      from 1[OF _ False, of p rest] Cons e obtain r where
        "getPath_loop f dest (rest @ explore f (insert current visited) current p) (insert current visited) = Some r"
        by auto
      then show ?thesis using Cons e False by (subst getPath_loop.simps) simp
    qed
  qed
qed

lemma neighbours_adjacent: "b \<in> set (neighbours a) \<longleftrightarrow> adjacent a b"
  by (cases a; cases b) (auto simp: neighbours_def pathDirections_def adjacent_def)

lemma walk_snoc:
  assumes "walk f start (p @ [c])" "adjacent c n" "freeCell f n"
  shows "walk f start ((p @ [c]) @ [n])"
  using assms unfolding walk_def
  by (auto simp: successively_append_iff hd_append)

lemma entriesValid_step:
  assumes "entriesValid f start ((current, p) # rest)"
  shows "entriesValid f start (rest @ explore f visited current p)"
proof -
  have "walk f start (snd e @ [fst e])" if "e \<in> set (explore f visited current p)" for e
  proof -
    from explore_cells[OF that] have "freeCell f (fst e)" "snd e = p @ [current]"
      "adjacent current (fst e)"
      by (auto simp: freeCell_def neighbours_adjacent)
    moreover have "walk f start (p @ [current])" using assms by (simp add: entriesValid_def)
    ultimately show ?thesis using walk_snoc by metis
  qed
  then show ?thesis using assms by (auto simp: entriesValid_def)
qed

lemma depthsOrdered_head:
  assumes "depthsOrdered ((current, p) # rest)" "e \<in> set ((current, p) # rest)"
  shows "length p \<le> length (snd e)" "length (snd e) \<le> length p + 1"
  using assms by (auto simp: depthsOrdered_def)

lemma depthsOrdered_step:
  assumes "depthsOrdered ((current, p) # rest)"
  shows "depthsOrdered (rest @ explore f visited current p)"
proof -
  let ?new = "explore f visited current p"
  let ?d = "\<lambda>e::(Coordinates \<times> Coordinates list). length (snd e)"
  have new: "?d e = length p + 1" if "e \<in> set ?new" for e
    using explore_cells[OF that] by simp
  have old: "length p \<le> ?d e \<and> ?d e \<le> length p + 1" if "e \<in> set rest" for e
    using depthsOrdered_head[OF assms, of e] that by simp
  have s1: "sorted (map ?d rest)" using assms by (simp add: depthsOrdered_def)
  have s2: "sorted (map ?d ?new)"
    using new by (simp add: sorted_wrt_iff_nth_less sorted_wrt_map)
  have "sorted (map ?d (rest @ ?new))"
    using s1 s2 old new by (auto simp: sorted_append)
  moreover have "?d e \<le> ?d (hd (rest @ ?new)) + 1" if "e \<in> set (rest @ ?new)" for e
  proof (cases rest)
    case Nil
    then have "e \<in> set ?new" using that by simp
    then have "?new \<noteq> []" by auto
    then have "hd (rest @ ?new) \<in> set ?new" "e \<in> set ?new" using Nil that by auto
    then show ?thesis using new by simp
  next
    case (Cons a list)
    then have "hd (rest @ ?new) \<in> set rest" by simp
    then have "length p \<le> ?d (hd (rest @ ?new))" using old by blast
    moreover have "?d e \<le> length p + 1"
    proof (cases "e \<in> set rest")
      case True
      then show ?thesis using old[of e] by simp
    next
      case False
      then have "e \<in> set ?new" using that by simp
      then show ?thesis using new[of e] by simp
    qed
    ultimately show ?thesis by linarith
  qed
  ultimately show ?thesis by (simp add: depthsOrdered_def)
qed

lemma frontier_step:
  assumes front: "frontier f start dest ((current, p) # rest) visited"
    and ord: "depthsOrdered ((current, p) # rest)"
    and ne: "current \<noteq> dest"
  shows "frontier f start dest (rest @ explore f (insert current visited) current p)
           (insert current visited)"
  unfolding frontier_def
proof (intro allI impI)
  fix w
  assume r: "route f start dest w"
  from front r obtain pre x post p' where
    w: "w = pre @ x # post" and mem: "(x, p') \<in> set ((current, p) # rest)"
    and len: "length p' \<le> length pre" and dis: "set post \<inter> visited = {}"
    unfolding frontier_def by blast
  let ?new = "explore f (insert current visited) current p"
  let ?V = "insert current visited"
  show "\<exists>pre x post p. w = pre @ x # post \<and> (x, p) \<in> set (rest @ ?new)
           \<and> length p \<le> length pre \<and> set post \<inter> ?V = {}"
  proof (cases "current \<in> set (x # post)")
    case True
    from split_list_last[OF True] obtain a b where
      sp: "x # post = a @ current # b" and nb: "current \<notin> set b" by blast
    have w2: "w = pre @ a @ current # b" using w sp by simp
    have "b \<noteq> []"
    proof
      assume "b = []"
      then have "last w = current" using w2 by simp
      then show False using r ne by (simp add: route_def)
    qed
    then obtain y b' where b: "b = y # b'" by (cases b) auto
    have w3: "w = (pre @ a @ [current]) @ y # b'" using w2 b by simp
    have bpost: "set b \<subseteq> set post"
    proof (cases a)
      case Nil
      then show ?thesis using sp by simp
    next
      case (Cons a0 a')
      then show ?thesis using sp by auto
    qed
    have wk: "walk f start w" using r by (simp add: route_def)
    have adj: "adjacent current y"
      using wk unfolding walk_def w3 by (simp add: successively_append_iff)
    have "tl w = tl (pre @ a @ [current]) @ y # b'" unfolding w3 by (rule tl_append2) simp
    then have "y \<in> set (tl w)" by simp
    then have free: "freeCell f y" using wk by (simp add: walk_def)
    have yV: "y \<notin> ?V" using nb b bpost dis by auto
    have "(y, p @ [current]) \<in> set ?new"
      using adj free yV
      by (auto simp: explore_def freeCell_def neighbours_adjacent[symmetric])
    moreover have "length (p @ [current]) \<le> length (pre @ a @ [current])"
      using depthsOrdered_head(1)[OF ord mem] len by simp
    moreover have "set b' \<inter> ?V = {}" using nb b bpost dis by auto
    ultimately show ?thesis using w3 by (metis Un_iff set_append)
  next
    case False
    then have "x \<noteq> current" "current \<notin> set post" by auto
    then have "(x, p') \<in> set (rest @ ?new)" "set post \<inter> ?V = {}" using mem dis by auto
    then show ?thesis using w len by blast
  qed
qed

lemma frontier_init: "frontier f start dest [(start, [])] {}"
  unfolding frontier_def
proof (intro allI impI)
  fix w assume "route f start dest w"
  then have "w = [] @ start # tl w" by (cases w) (auto simp: route_def walk_def)
  then show "\<exists>pre x post p. w = pre @ x # post \<and> (x, p) \<in> set [(start, [])]
           \<and> length p \<le> length pre \<and> set post \<inter> {} = {}"
    by (intro exI[of _ "[]"] exI[of _ start] exI[of _ "tl w"]) simp
qed

lemma getPath_loop_shortest:
  assumes "getPath_loop f dest queue visited = Some r"
    and "entriesValid f start queue" and "depthsOrdered queue"
    and "frontier f start dest queue visited"
  shows "(found r \<longrightarrow> route f start dest (path r)
            \<and> (\<forall>w. route f start dest w \<longrightarrow> length (path r) \<le> length w))
         \<and> (\<not> found r \<longrightarrow> path r = [])"
  using assms
proof (induction queue visited rule: getPath_loop_induct[where dest = dest and f = f])
  case (1 queue visited)
  show ?case
  proof (cases queue)
    case Nil
    then show ?thesis using "1.prems"(1) by (auto simp: getPath_loop.simps)
  next
    case (Cons e rest)
    obtain current p where e: "e = (current, p)" by (cases e)
    note q = Cons[unfolded e]
    show ?thesis
    proof (cases "current = dest")
      case True
      then have r: "r = \<lparr>path = p @ [current], found = True\<rparr>"
        using "1.prems"(1) q by (simp add: getPath_loop.simps)
      have "walk f start (p @ [current])" using "1.prems"(2) q by (simp add: entriesValid_def)
      then have rt: "route f start dest (p @ [current])" using True by (simp add: route_def)
      have "length (p @ [current]) \<le> length w" if "route f start dest w" for w
      proof -
        from "1.prems"(4) that obtain pre x post p' where
          w: "w = pre @ x # post" and mem: "(x, p') \<in> set queue"
          and len: "length p' \<le> length pre"
          unfolding frontier_def by blast
        have "length p \<le> length p'"
          using depthsOrdered_head(1)[of current p rest "(x, p')"] "1.prems"(3) mem q by simp
        then show ?thesis using len w by simp
      qed
      then show ?thesis using r rt by simp
    next
      case False
      let ?q' = "rest @ explore f (insert current visited) current p"
      let ?V' = "insert current visited"
      have run: "getPath_loop f dest ?q' ?V' = Some r"
        using "1.prems"(1) q False by (subst (asm) getPath_loop.simps) simp
      show ?thesis
        using "1.IH"[OF q False run entriesValid_step depthsOrdered_step
            frontier_step[OF _ _ False]] "1.prems" q
        by simp
    qed
  qed
qed

section \<open>Reading and writing the grid\<close>

lemma gridShape_put2: "gridShape a \<Longrightarrow> gridShape (put2 a c v)"
proof (cases "nat (fst c) < length a")
  case True
  assume a: "gridShape a"
  then have "length ((a ! nat (fst c))[nat (snd c) := v]) = nat Game_size"
    using True by (simp add: gridShape_def)
  moreover have "set (put2 a c v) \<subseteq> insert ((a ! nat (fst c))[nat (snd c) := v]) (set a)"
    unfolding put2_def by (rule set_update_subset_insert)
  ultimately show ?thesis using a unfolding gridShape_def put2_def by auto
next
  case False
  assume a: "gridShape a"
  from False have "put2 a c v = a" by (simp add: put2_def list_update_beyond)
  then show ?thesis using a by simp
qed

lemma at2_put2:
  assumes "gridShape a" "inBounds c" "inBounds c'"
  shows "at2 (put2 a c v) c' = (if c' = c then v else at2 a c')"
proof -
  obtain x y x' y' where c: "c = (x, y)" "c' = (x', y')" by (cases c; cases c')
  have b: "0 \<le> x" "x < 9" "0 \<le> y" "y < 9" "0 \<le> x'" "x' < 9" "0 \<le> y'" "y' < 9"
    using assms(2,3) by (auto simp: inBounds_def c Game_size_def)
  have len: "length a = 9" "length (a ! nat x) = 9"
    using assms(1) b by (auto simp: gridShape_def Game_size_def)
  show ?thesis
    using b len by (auto simp: at2_def put2_def c nth_list_update)
qed

section \<open>The placement loop: unfolding rules, induction and termination\<close>

lemma placeLoop_done:
  "\<not> i > 0 \<Longrightarrow> placeLoop random i tryCounter obstacles g = Some (False, obstacles, g)"
  by (subst placeLoop.simps) simp

lemma placeLoop_hit:
  "i > 0 \<Longrightarrow> at2 (field g) (drawCell random (randomCalls g)) = 0 \<Longrightarrow>
   placeLoop random i tryCounter obstacles g =
     placeLoop random (i - 1) 0 (obstacles @ [drawCell random (randomCalls g)])
       (placeBall random (drawCell random (randomCalls g)) (g\<lparr>randomCalls := randomCalls g + 2\<rparr>))"
  by (subst placeLoop.simps) (simp add: Let_def)

lemma placeLoop_full:
  "i > 0 \<Longrightarrow> at2 (field g) (drawCell random (randomCalls g)) \<noteq> 0 \<Longrightarrow>
   int tryCounter > Game_size * Game_size \<Longrightarrow> countEmpty (field g) = 0 \<Longrightarrow>
   placeLoop random i tryCounter obstacles g =
     Some (True, obstacles, Game_end (g\<lparr>randomCalls := randomCalls g + 2\<rparr>))"
  by (subst placeLoop.simps) (simp add: Let_def)

lemma placeLoop_giveup:
  "i > 0 \<Longrightarrow> at2 (field g) (drawCell random (randomCalls g)) \<noteq> 0 \<Longrightarrow>
   int tryCounter > Game_size * Game_size \<Longrightarrow> countEmpty (field g) \<noteq> 0 \<Longrightarrow>
   placeLoop random i tryCounter obstacles g =
     placeLoop random (i - 1) tryCounter obstacles (g\<lparr>randomCalls := randomCalls g + 2\<rparr>)"
  by (subst placeLoop.simps) (simp add: Let_def)

lemma placeLoop_retry:
  "i > 0 \<Longrightarrow> at2 (field g) (drawCell random (randomCalls g)) \<noteq> 0 \<Longrightarrow>
   \<not> int tryCounter > Game_size * Game_size \<Longrightarrow>
   placeLoop random i tryCounter obstacles g =
     placeLoop random i (tryCounter + 1) obstacles (g\<lparr>randomCalls := randomCalls g + 2\<rparr>)"
  by (subst placeLoop.simps) (simp add: Let_def)

lemma placeLoop_induct:
  assumes step: "\<And>i tryCounter obstacles g.
    (i > 0 \<Longrightarrow> at2 (field g) (drawCell random (randomCalls g)) = 0 \<Longrightarrow>
       P (i - 1) 0 (obstacles @ [drawCell random (randomCalls g)])
         (placeBall random (drawCell random (randomCalls g)) (g\<lparr>randomCalls := randomCalls g + 2\<rparr>)))
    \<Longrightarrow> (i > 0 \<Longrightarrow> at2 (field g) (drawCell random (randomCalls g)) \<noteq> 0 \<Longrightarrow>
       int tryCounter > Game_size * Game_size \<Longrightarrow> countEmpty (field g) \<noteq> 0 \<Longrightarrow>
       P (i - 1) tryCounter obstacles (g\<lparr>randomCalls := randomCalls g + 2\<rparr>))
    \<Longrightarrow> (i > 0 \<Longrightarrow> at2 (field g) (drawCell random (randomCalls g)) \<noteq> 0 \<Longrightarrow>
       \<not> int tryCounter > Game_size * Game_size \<Longrightarrow>
       P i (tryCounter + 1) obstacles (g\<lparr>randomCalls := randomCalls g + 2\<rparr>))
    \<Longrightarrow> P i tryCounter obstacles g"
  shows "P (i::int) (tryCounter::nat) obstacles g"
proof (induction "nat i * 100 + (82 - tryCounter)" arbitrary: i tryCounter obstacles g
    rule: less_induct)
  case less
  have a: "P (i - 1) 0 obs' g'" if "i > 0" for obs' g'
  proof -
    from that have "nat (i - 1) * 100 + (82 - 0) < nat i * 100 + (82 - tryCounter)" by linarith
    from less[OF this] show ?thesis .
  qed
  have b: "P (i - 1) tryCounter obs' g'" if "i > 0" for obs' g'
  proof -
    from that have "nat (i - 1) * 100 + (82 - tryCounter) < nat i * 100 + (82 - tryCounter)"
      by linarith
    from less[OF this] show ?thesis .
  qed
  have c: "P i (tryCounter + 1) obs' g'" if "\<not> int tryCounter > Game_size * Game_size" for obs' g'
  proof -
    from that have "nat i * 100 + (82 - (tryCounter + 1)) < nat i * 100 + (82 - tryCounter)"
      by (simp add: Game_size_def)
    from less[OF this] show ?thesis .
  qed
  show ?case
    by (rule step; (rule a | rule b | rule c); assumption)
qed

lemma placeLoop_returns: "\<exists>r. placeLoop random i tryCounter obstacles g = Some r"
proof (induction i tryCounter obstacles g rule: placeLoop_induct[where random = random])
  case (1 i tryCounter obstacles g)
  let ?hit = "at2 (field g) (drawCell random (randomCalls g)) = 0"
  consider "\<not> i > 0" | "i > 0" ?hit
    | "i > 0" "\<not> ?hit" "int tryCounter > Game_size * Game_size" "countEmpty (field g) = 0"
    | "i > 0" "\<not> ?hit" "int tryCounter > Game_size * Game_size" "countEmpty (field g) \<noteq> 0"
    | "i > 0" "\<not> ?hit" "\<not> int tryCounter > Game_size * Game_size"
    by blast
  then show ?case
  proof cases
    case 1
    then show ?thesis by (auto simp: placeLoop_done)
  next
    case 2
    then show ?thesis using "1.IH"(1) by (simp add: placeLoop_hit)
  next
    case 3
    then show ?thesis by (auto simp: placeLoop_full)
  next
    case 4
    then show ?thesis using "1.IH"(2) by (simp add: placeLoop_giveup)
  next
    case 5
    then show ?thesis using "1.IH"(3) by (simp add: placeLoop_retry)
  qed
qed

section \<open>Path finding: shortest routes through empty cells\<close>

lemma getPath_result:
  "\<exists>r. getPath g start dest = Some r
     \<and> (found r \<longrightarrow> route (field g) start dest (path r)
            \<and> (\<forall>w. route (field g) start dest w \<longrightarrow> length (path r) \<le> length w))
     \<and> (\<not> found r \<longrightarrow> path r = [])"
proof -
  obtain r where r: "getPath_loop (field g) dest [(start, [])] {} = Some r"
    using getPath_loop_returns by blast
  have "entriesValid (field g) start [(start, [])]"
    by (simp add: entriesValid_def walk_def)
  moreover have "depthsOrdered [(start, [])]" by (simp add: depthsOrdered_def)
  ultimately show ?thesis
    using getPath_loop_shortest[OF r _ _ frontier_init] r by (simp add: getPath_def)
qed

lemma walk_cells:
  assumes "walk f start w" "c \<in> set w" "c \<noteq> start"
  shows "freeCell f c"
proof -
  from assms(1) have "w = start # tl w" by (cases w) (auto simp: walk_def)
  then have "c \<in> set (tl w)" using assms(2,3) by (metis set_ConsD)
  then show ?thesis using assms(1) by (simp add: walk_def)
qed

text \<open>
  C1. Whenever the search reports \<open>found = true\<close> (and it always returns), the returned
  path begins at the start, ends at the destination, moves between orthogonally adjacent
  cells, stays on the board, and no route from the start to the destination through free
  cells is shorter.
\<close>

theorem getPath_shortest:
  assumes "inBounds start"
  shows "\<exists>r. getPath g start dest = Some r
     \<and> (found r \<longrightarrow>
          path r \<noteq> [] \<and> hd (path r) = start \<and> last (path r) = dest
          \<and> successively adjacent (path r)
          \<and> (\<forall>c \<in> set (path r). inBounds c)
          \<and> (\<forall>w. route (field g) start dest w \<longrightarrow> length (path r) \<le> length w))"
proof -
  from getPath_result[of g start dest] obtain r where
    r: "getPath g start dest = Some r"
    and f: "found r \<longrightarrow> route (field g) start dest (path r)
            \<and> (\<forall>w. route (field g) start dest w \<longrightarrow> length (path r) \<le> length w)"
    by blast
  have "inBounds c" if "found r" "c \<in> set (path r)" for c
  proof (cases "c = start")
    case True
    then show ?thesis using assms by simp
  next
    case False
    from f that(1) have "walk (field g) start (path r)" by (simp add: route_def)
    from walk_cells[OF this that(2) False] show ?thesis by (simp add: freeCell_def)
  qed
  then show ?thesis using r f by (auto simp: route_def walk_def)
qed

lemma detour_path:
  "getPath detourGame (0, 0) (0, 2) =
     Some \<lparr>path = [(0, 0), (1, 0), (1, 1), (1, 2), (0, 2)], found = True\<rparr>"
  by code_simp

lemma detour_longer_route:
  "route (field detourGame) (0, 0) (0, 2)
     [(0, 0), (1, 0), (2, 0), (2, 1), (2, 2), (1, 2), (0, 2)]"
  by (simp add: route_def walk_def adjacent_def freeCell_def inBounds_def Game_size_def
      detourGame_def at2_def)

theorem getPath_shortest_witness:
  "inBounds (0, 0)
   \<and> getPath detourGame (0, 0) (0, 2)
        = Some \<lparr>path = [(0, 0), (1, 0), (1, 1), (1, 2), (0, 2)], found = True\<rparr>
   \<and> successively adjacent [(0, 0), (1, 0), (1, 1), (1, 2), (0, 2)]
   \<and> inBounds (1, 0) \<and> inBounds (1, 1) \<and> inBounds (1, 2) \<and> inBounds (0, 2)
   \<and> route (field detourGame) (0, 0) (0, 2)
        [(0, 0), (1, 0), (2, 0), (2, 1), (2, 2), (1, 2), (0, 2)]
   \<and> length [(0, 0), (1, 0), (1, 1), (1, 2), (0::int, 2::int)]
        \<le> length [(0, 0), (1, 0), (2, 0), (2, 1), (2, 2), (1, 2), (0::int, 2::int)]"
proof -
  have b: "inBounds (0, 0)" by (simp add: inBounds_def Game_size_def)
  from getPath_shortest[OF b, of detourGame "(0, 2)"] detour_path detour_longer_route b
  show ?thesis by simp
qed

text \<open>
  C6. Every cell of the returned path other than the start is on the board and empty in the
  grid; when a path is found between two different cells, the destination is empty.
\<close>

theorem getPath_avoids_occupied:
  "\<exists>r. getPath g start dest = Some r
     \<and> (\<forall>c \<in> set (path r). c \<noteq> start \<longrightarrow> inBounds c \<and> at2 (field g) c = 0)
     \<and> (found r \<and> start \<noteq> dest \<longrightarrow> inBounds dest \<and> at2 (field g) dest = 0)"
proof -
  from getPath_result[of g start dest] obtain r where
    r: "getPath g start dest = Some r"
    and f: "found r \<longrightarrow> route (field g) start dest (path r)"
    and n: "\<not> found r \<longrightarrow> path r = []"
    by blast
  have cells: "freeCell (field g) c" if "c \<in> set (path r)" "c \<noteq> start" for c
  proof (cases "found r")
    case True
    with f have "walk (field g) start (path r)" by (simp add: route_def)
    from walk_cells[OF this that] show ?thesis .
  next
    case False
    with n that show ?thesis by simp
  qed
  have "freeCell (field g) dest" if "found r" "start \<noteq> dest"
  proof -
    from f that(1) have "path r \<noteq> []" "last (path r) = dest"
      by (auto simp: route_def walk_def)
    then have "dest \<in> set (path r)" using last_in_set by metis
    from cells[OF this] that(2) show ?thesis by simp
  qed
  with cells r show ?thesis by (auto simp: freeCell_def)
qed

theorem getPath_avoids_occupied_witness:
  "getPath detourGame (0, 0) (0, 2)
     = Some \<lparr>path = [(0, 0), (1, 0), (1, 1), (1, 2), (0, 2)], found = True\<rparr>
   \<and> at2 (field detourGame) (0, 1) = 1
   \<and> inBounds (1, 0) \<and> at2 (field detourGame) (1, 0) = 0
   \<and> inBounds (1, 1) \<and> at2 (field detourGame) (1, 1) = 0
   \<and> inBounds (1, 2) \<and> at2 (field detourGame) (1, 2) = 0
   \<and> inBounds (0, 2) \<and> at2 (field detourGame) (0, 2) = 0"
proof -
  have "at2 (field detourGame) (0, 1) = 1" by (simp add: detourGame_def at2_def)
  with getPath_avoids_occupied[of detourGame "(0, 0)" "(0, 2)"] detour_path
  show ?thesis by simp
qed

section \<open>Termination of the operations\<close>

lemma randomCells_returns: "\<exists>g'. randomCells random g = Some g'"
proof -
  obtain r where "placeLoop random ballCount 0 [] g = Some r"
    using placeLoop_returns by blast
  then show ?thesis by (cases r) (simp add: randomCells_def)
qed

lemma handleClicks_returns: "\<exists>r. handleClicks g coords = Some r"
proof -
  show ?thesis
  proof (cases "selectedIndex g")
    case None
    then show ?thesis by (simp add: handleClicks_def)
  next
    case (Some sel)
    obtain result where "getPath g sel coords = Some result"
      using getPath_loop_returns unfolding getPath_def by blast
    then show ?thesis using Some
      by (simp add: handleClicks_def split: prod.splits)
  qed
qed

text \<open>
  C8. Every operation returns on every input: the search loop of \<open>getPath\<close> for every grid,
  queue and visited set (although cells are marked visited only when dequeued), the
  placement loop of \<open>randomCells\<close> for every random sequence and every loop state (although
  the loop variable is incremented again on a collision), and with them \<open>getPath\<close>,
  \<open>randomCells\<close>, the click handler and its timer callback. All other loops of the code run
  over fixed ranges or finite collections; they are folds over finite lists and the bounded
  recursion \<open>checkLoop\<close>.
\<close>

theorem operations_terminate:
  "(\<exists>r. getPath_loop f dest queue visited = Some r)
   \<and> (\<exists>r. getPath g start dest = Some r)
   \<and> (\<exists>r. placeLoop random i tryCounter obstacles g = Some r)
   \<and> (\<exists>g'. randomCells random g = Some g')
   \<and> (\<exists>r. handleClicks g coords = Some r)
   \<and> (\<exists>g'. moveTimeout random popped g = Some g')"
proof -
  have "\<exists>r. getPath g start dest = Some r"
    unfolding getPath_def by (rule getPath_loop_returns)
  moreover have "\<exists>g'. moveTimeout random popped g = Some g'"
    using randomCells_returns by (simp add: moveTimeout_def)
  ultimately show ?thesis
    using getPath_loop_returns placeLoop_returns randomCells_returns handleClicks_returns
    by blast
qed

section \<open>Run detection\<close>

lemma fiveRow_findFives:
  "findFives (ballColors (cells (fiveRow col))) = [(0, 0), (0, 1), (0, 2), (0, 3), (0, 4)]"
  by (cases col; hypsubst; code_simp)

lemma checkLoop_takeWhile:
  "checkLoop bc color x y incrX incrY i count tempDelete =
     (count + length (takeWhile (\<lambda>j. inBounds (x + int j * incrX, y + int j * incrY)
                        \<and> at2 bc (x + int j * incrX, y + int j * incrY) = Some color) [i..<5]),
      tempDelete @ map (\<lambda>j. (x + int j * incrX, y + int j * incrY))
        (takeWhile (\<lambda>j. inBounds (x + int j * incrX, y + int j * incrY)
                        \<and> at2 bc (x + int j * incrX, y + int j * incrY) = Some color) [i..<5]))"
proof (induction bc color x y incrX incrY i count tempDelete rule: checkLoop.induct)
  case (1 bc color x y incrX incrY i count tempDelete)
  show ?case
  proof (cases "i < 5")
    case False
    then show ?thesis by (subst checkLoop.simps) simp
  next
    case True
    then have u: "[i..<5] = i # [i + 1..<5]" by (simp add: upt_conv_Cons)
    show ?thesis
    proof (cases "inBounds (x + int i * incrX, y + int i * incrY)
                        \<and> at2 bc (x + int i * incrX, y + int i * incrY) = Some color")
      case ok: True
      then show ?thesis
        using True "1.IH"[OF True refl refl]
        by (subst checkLoop.simps) (simp add: u inBounds_def Let_def)
    next
      case no: False
      then show ?thesis
        using True by (subst checkLoop.simps) (auto simp: u inBounds_def Let_def)
    qed
  qed
qed

lemma takeWhile_all: "length (takeWhile P xs) \<ge> length xs \<longleftrightarrow> (\<forall>x \<in> set xs. P x)"
proof
  assume "length xs \<le> length (takeWhile P xs)"
  then have "length (takeWhile P xs) = length xs"
    using length_takeWhile_le[of P xs] by simp
  then have "takeWhile P xs = xs"
    by (metis takeWhile_eq_take take_all le_refl)
  then show "\<forall>x \<in> set xs. P x" by (metis set_takeWhileD)
next
  assume "\<forall>x \<in> set xs. P x"
  then have "takeWhile P xs = xs" by (simp add: takeWhile_eq_all_conv)
  then show "length xs \<le> length (takeWhile P xs)" by (metis le_refl)
qed

lemma checkDirection_window:
  "checkDirection bc s x y incrX incrY =
     (if fiveInLine bc (x, y) (incrX, incrY)
      then fold (\<lambda>c s. setAdd s c) (window (x, y) (incrX, incrY)) s else s)"
proof (cases "at2 bc (x, y)")
  case None
  then show ?thesis by (simp add: checkDirection_def fiveInLine_def)
next
  case (Some color)
  let ?ok = "\<lambda>j. inBounds (x + int j * incrX, y + int j * incrY)
                        \<and> at2 bc (x + int j * incrX, y + int j * incrY) = Some color"
  have five: "fiveInLine bc (x, y) (incrX, incrY) \<longleftrightarrow> (\<forall>j \<in> set [0..<5]. ?ok j)"
    using Some by (auto simp: fiveInLine_def window_def)
  have len: "5 \<le> length (takeWhile ?ok [0..<5]) \<longleftrightarrow> (\<forall>j \<in> set [0..<5]. ?ok j)"
    using takeWhile_all[of "[0..<5]" ?ok] by simp
  have cl: "checkLoop bc color x y incrX incrY 0 0 [] =
      (length (takeWhile ?ok [0..<5]),
       map (\<lambda>j. (x + int j * incrX, y + int j * incrY)) (takeWhile ?ok [0..<5]))"
    by (simp add: checkLoop_takeWhile)
  show ?thesis
  proof (cases "fiveInLine bc (x, y) (incrX, incrY)")
    case True
    then have tw: "takeWhile ?ok [0..<5] = [0..<5]"
      using five by (simp add: takeWhile_eq_all_conv)
    have "checkLoop bc color x y incrX incrY 0 0 [] = (5, window (x, y) (incrX, incrY))"
      unfolding cl tw window_def by simp
    then show ?thesis
      using True Some by (simp add: checkDirection_def)
  next
    case False
    then have "\<not> 5 \<le> length (takeWhile ?ok [0..<5])" using five len by blast
    then show ?thesis
      using False Some by (simp add: checkDirection_def cl)
  qed
qed

lemma set_fold_setAdd: "set (fold (\<lambda>c s. setAdd s c) xs s) = set s \<union> set xs"
  by (induction xs arbitrary: s) (auto simp: setAdd_def)

lemma distinct_fold_setAdd: "distinct s \<Longrightarrow> distinct (fold (\<lambda>c s. setAdd s c) xs s)"
  by (induction xs arbitrary: s) (auto simp: setAdd_def)

lemma set_checkDirection:
  "set (checkDirection bc s (fst c) (snd c) (fst d) (snd d)) =
     set s \<union> (if fiveInLine bc c d then set (window c d) else {})"
  using checkDirection_window[of bc s "fst c" "snd c" "fst d" "snd d"]
  by (simp add: set_fold_setAdd)

lemma distinct_checkDirection:
  "distinct s \<Longrightarrow> distinct (checkDirection bc s x y incrX incrY)"
  by (simp add: checkDirection_window distinct_fold_setAdd)

lemma set_fold_directions:
  "set (fold (\<lambda>d s'. checkDirection bc s' (fst c) (snd c) (fst d) (snd d)) ds s) =
     set s \<union> (\<Union>d \<in> {d \<in> set ds. fiveInLine bc c d}. set (window c d))"
proof (induction ds arbitrary: s)
  case Nil
  then show ?case by simp
next
  case (Cons d ds)
  show ?case
    unfolding fold_Cons comp_apply Cons.IH set_checkDirection by auto
qed

lemma distinct_fold_directions:
  "distinct s \<Longrightarrow>
   distinct (fold (\<lambda>d s'. checkDirection bc s' (fst c) (snd c) (fst d) (snd d)) ds s)"
  by (induction ds arbitrary: s) (simp_all add: distinct_checkDirection)

lemma set_fold_cells:
  "set (fold (\<lambda>c s. fold (\<lambda>d s'. checkDirection bc s' (fst c) (snd c) (fst d) (snd d)) ds s) cs s) =
     set s \<union> (\<Union>c \<in> set cs. \<Union>d \<in> {d \<in> set ds. fiveInLine bc c d}. set (window c d))"
proof (induction cs arbitrary: s)
  case Nil
  then show ?case by simp
next
  case (Cons c cs)
  show ?case
    unfolding fold_Cons comp_apply Cons.IH set_fold_directions by auto
qed

lemma distinct_fold_cells:
  "distinct s \<Longrightarrow>
   distinct (fold (\<lambda>c s. fold (\<lambda>d s'. checkDirection bc s' (fst c) (snd c) (fst d) (snd d)) ds s) cs s)"
  by (induction cs arbitrary: s) (simp_all add: distinct_fold_directions)

lemma distinct_findFives: "distinct (findFives bc)"
  by (simp add: findFives_def distinct_fold_cells)

lemma window_first: "c \<in> set (window c d)"
proof -
  have "[0..<5] = [0, 1, 2, 3, 4::nat]" by code_simp
  then show ?thesis by (simp add: window_def)
qed

lemma fiveInLine_inBounds: "fiveInLine bc c d \<Longrightarrow> p \<in> set (window c d) \<Longrightarrow> inBounds p"
  by (simp add: fiveInLine_def)

lemma findFives_member:
  "p \<in> set (findFives bc) \<longleftrightarrow>
     (\<exists>c d. d \<in> set lineDirections \<and> fiveInLine bc c d \<and> p \<in> set (window c d))"
proof -
  have "c \<in> set allCells" if "fiveInLine bc c d" for c d
    using fiveInLine_inBounds[OF that window_first] by (simp add: set_allCells)
  then show ?thesis
    unfolding findFives_def set_fold_cells by fastforce
qed

lemma findFives_inBounds: "p \<in> set (findFives bc) \<Longrightarrow> inBounds p"
  using findFives_member fiveInLine_inBounds by blast

text \<open>
  C4. A cell is marked for clearing exactly when it lies in a window of five consecutive
  cells, all on the board, all occupied and of one colour, along one of the four line
  directions; nothing is marked exactly when no such window exists; the flag returned by
  \<open>popFives\<close> tells whether anything was marked; and on the board whose only balls are
  five of one colour at \<open>(0, 0)\<close> .. \<open>(0, 4)\<close> exactly these five cells are marked.
\<close>

theorem popFives_marks_windows:
  "(p \<in> set (findFives (ballColors (cells g))) \<longleftrightarrow>
      (\<exists>c d. d \<in> set lineDirections \<and> fiveInLine (ballColors (cells g)) c d
         \<and> p \<in> set (window c d)))
   \<and> (findFives (ballColors (cells g)) = [] \<longleftrightarrow>
      \<not> (\<exists>c d. d \<in> set lineDirections \<and> fiveInLine (ballColors (cells g)) c d))
   \<and> fst (popFives g) = (findFives (ballColors (cells g)) \<noteq> [])
   \<and> set (findFives (ballColors (cells (fiveRow col)))) = {(0, 0), (0, 1), (0, 2), (0, 3), (0, 4)}"
proof -
  let ?bc = "ballColors (cells g)"
  have "findFives ?bc = [] \<longleftrightarrow> (\<forall>p. p \<notin> set (findFives ?bc))" by auto
  also have "\<dots> \<longleftrightarrow> \<not> (\<exists>c d. d \<in> set lineDirections \<and> fiveInLine ?bc c d)"
    unfolding findFives_member using window_first by blast
  finally have e: "findFives ?bc = [] \<longleftrightarrow>
      \<not> (\<exists>c d. d \<in> set lineDirections \<and> fiveInLine ?bc c d)" .
  have f: "fst (popFives g) = (findFives ?bc \<noteq> [])"
    by (simp add: popFives_def Let_def)
  show ?thesis
    using findFives_member[of p ?bc] e f by (simp add: fiveRow_findFives)
qed

theorem popFives_marks_windows_witness:
  "(0, 1) \<in> set lineDirections
   \<and> fiveInLine (ballColors (cells (fiveRow red))) (0, 0) (0, 1)
   \<and> (0, 2) \<in> set (window (0, 0) (0, 1))
   \<and> (0, 2) \<in> set (findFives (ballColors (cells (fiveRow red))))
   \<and> fst (popFives (fiveRow red))"
proof -
  have w: "window (0, 0) (0, 1) = [(0, 0), (0, 1), (0, 2), (0, 3), (0, 4)]" by code_simp
  have a: "(0, 1) \<in> set lineDirections" by (simp add: lineDirections_def)
  have b: "fiveInLine (ballColors (cells (fiveRow red))) (0, 0) (0, 1)"
    unfolding fiveInLine_def w
    by (simp add: fiveRow_def ballColors_def firstChild_def at2_def inBounds_def Game_size_def)
  have c: "(0, 2) \<in> set (window (0, 0) (0, 1))" unfolding w by simp
  from popFives_marks_windows[of "(0, 2)" "fiveRow red" red] a b c
  show ?thesis by blast
qed

section \<open>Clearing and scoring\<close>

lemma distinct_allCells: "distinct allCells"
  by code_simp

lemma gridShape_fold_put2: "gridShape f \<Longrightarrow> gridShape (fold (\<lambda>k f. put2 f k v) td f)"
  by (induction td arbitrary: f) (simp_all add: gridShape_put2)

lemma at2_fold_put2:
  assumes "gridShape f" "\<forall>k \<in> set td. inBounds k" "inBounds c"
  shows "at2 (fold (\<lambda>k f. put2 f k v) td f) c = (if c \<in> set td then v else at2 f c)"
  using assms
proof (induction td arbitrary: f)
  case Nil
  then show ?case by simp
next
  case (Cons k td)
  have "at2 (fold (\<lambda>k f. put2 f k v) td (put2 f k v)) c
      = (if c \<in> set td then v else at2 (put2 f k v) c)"
    using Cons.prems by (intro Cons.IH gridShape_put2) simp_all
  then show ?case using Cons.prems by (simp add: at2_put2)
qed

lemma removeMarked_simps:
  "points (removeMarked c g) = points g + (if at2 (field g) c = -1 then 1 else 0)"
  "field (removeMarked c g) = (if at2 (field g) c = -1 then put2 (field g) c 0 else field g)"
  "cells (removeMarked c g) = (if at2 (field g) c = -1 then put2 (cells g) c [] else cells g)"
  "ended (removeMarked c g) = ended g"
  "nextColors (removeMarked c g) = nextColors g"
  "selectedIndex (removeMarked c g) = selectedIndex g"
  "randomCalls (removeMarked c g) = randomCalls g"
  by (simp_all add: removeMarked_def)

lemma removeMarked_field_other:
  assumes "gridShape (field g)" "inBounds c" "inBounds c'" "c' \<noteq> c"
  shows "at2 (field (removeMarked c g)) c' = at2 (field g) c'"
  using assms by (simp add: removeMarked_simps at2_put2)

lemma removeMarked_shape:
  "gridShape (field g) \<Longrightarrow> gridShape (field (removeMarked c g))"
  "gridShape (cells g) \<Longrightarrow> gridShape (cells (removeMarked c g))"
  by (simp_all add: removeMarked_simps gridShape_put2)

lemma sweep_shape:
  "gridShape (field g) \<Longrightarrow> gridShape (field (fold removeMarked cs g))"
  "gridShape (cells g) \<Longrightarrow> gridShape (cells (fold removeMarked cs g))"
  by (induction cs arbitrary: g) (simp_all add: removeMarked_shape)

lemma sweep_points:
  assumes "distinct cs" "\<forall>c \<in> set cs. inBounds c" "gridShape (field g)"
  shows "points (fold removeMarked cs g)
           = points g + length (filter (\<lambda>c. at2 (field g) c = -1) cs)"
  using assms
proof (induction cs arbitrary: g)
  case Nil
  then show ?case by simp
next
  case (Cons c cs)
  let ?g = "removeMarked c g"
  have same: "filter (\<lambda>c'. at2 (field ?g) c' = -1) cs = filter (\<lambda>c'. at2 (field g) c' = -1) cs"
  proof (rule filter_cong[OF refl])
    fix c' assume "c' \<in> set cs"
    then have "inBounds c'" "c' \<noteq> c" using Cons.prems by auto
    then show "(at2 (field ?g) c' = -1) = (at2 (field g) c' = -1)"
      using removeMarked_field_other[of g c c'] Cons.prems by simp
  qed
  have "points (fold removeMarked cs ?g)
          = points ?g + length (filter (\<lambda>c'. at2 (field ?g) c' = -1) cs)"
    using Cons.prems by (intro Cons.IH removeMarked_shape) simp_all
  then show ?case by (simp add: same removeMarked_simps(1))
qed

lemma sweep_points_mono: "points g \<le> points (fold removeMarked cs g)"
proof (induction cs arbitrary: g)
  case Nil
  then show ?case by simp
next
  case (Cons c cs)
  have "points g \<le> points (removeMarked c g)" by (simp add: removeMarked_simps(1))
  also have "\<dots> \<le> points (fold removeMarked cs (removeMarked c g))" by (rule Cons.IH)
  finally show ?case by simp
qed

lemma popFives_points_mono: "points g \<le> points (snd (popFives g))"
  using sweep_points_mono[of "g\<lparr>field := fold (\<lambda>k f. put2 f k (-1)) (findFives (ballColors (cells g))) (field g)\<rparr>" allCells]
  by (simp add: popFives_def Let_def Game_end_def)

lemma popFives_points:
  assumes "fieldOk (field g)"
  shows "points (snd (popFives g)) = points g + length (findFives (ballColors (cells g)))"
proof -
  let ?td = "findFives (ballColors (cells g))"
  let ?f1 = "fold (\<lambda>k f. put2 f k (-1)) ?td (field g)"
  let ?g1 = "g\<lparr>field := ?f1\<rparr>"
  have shape: "gridShape (field g)" using assms by (simp add: fieldOk_def)
  have tdb: "\<forall>k \<in> set ?td. inBounds k" using findFives_inBounds by blast
  have inb: "\<forall>c \<in> set allCells. inBounds c" by (simp add: set_allCells)
  have "filter (\<lambda>c. at2 ?f1 c = -1) allCells = filter (\<lambda>c. c \<in> set ?td) allCells"
  proof (rule filter_cong[OF refl])
    fix c assume c: "c \<in> set allCells"
    then have "inBounds c" by (simp add: set_allCells)
    from at2_fold_put2[OF shape tdb this, of "-1"]
    have "at2 ?f1 c = (if c \<in> set ?td then -1 else at2 (field g) c)" .
    moreover have "at2 (field g) c \<noteq> -1" using assms c by (auto simp: fieldOk_def)
    ultimately show "(at2 ?f1 c = -1) = (c \<in> set ?td)" by simp
  qed
  moreover have "length (filter (\<lambda>c. c \<in> set ?td) allCells) = length ?td"
  proof -
    have "length (filter (\<lambda>c. c \<in> set ?td) allCells) = card ({c. c \<in> set ?td} \<inter> set allCells)"
      using distinct_allCells by (rule distinct_length_filter)
    also have "{c. c \<in> set ?td} \<inter> set allCells = set ?td"
      using tdb by (auto simp: set_allCells)
    also have "card (set ?td) = length ?td"
      using distinct_findFives by (rule distinct_card)
    finally show ?thesis .
  qed
  moreover have "points (fold removeMarked allCells ?g1)
      = points ?g1 + length (filter (\<lambda>c. at2 (field ?g1) c = -1) allCells)"
    using distinct_allCells inb shape
    by (intro sweep_points) (simp_all add: gridShape_fold_put2)
  ultimately show ?thesis
    by (simp add: popFives_def Let_def Game_end_def)
qed

section \<open>The placement loop: what a batch places\<close>

lemma inBounds_drawCell: "inBounds (drawCell random k)"
  by (simp add: drawCell_def randomInt_def inBounds_def Game_size_def)

lemma placeBall_simps:
  "field (placeBall random rand g) = put2 (field g) rand 1"
  "points (placeBall random rand g) = points g"
  "ended (placeBall random rand g) = ended g"
  "selectedIndex (placeBall random rand g) = selectedIndex g"
  "nextColors (placeBall random rand g) = butlast (nextColors g)"
  "randomCalls g \<le> randomCalls (placeBall random rand g)"
  by (simp_all add: placeBall_def pop_def newBall_def split: prod.splits option.splits)

lemma placeBall_cells:
  "cells (placeBall random rand g) =
     put2 (cells g) rand
       (at2 (cells g) rand
        @ [if nextColors g = [] then colors ! randomInt random (randomCalls g) (length colors)
           else last (nextColors g)])"
  by (simp add: placeBall_def pop_def newBall_def)

lemma placeLoop_frame:
  assumes "placeLoop random i tryCounter obstacles g = Some (returned, obstacles', g')"
  shows "points g' = points g \<and> selectedIndex g' = selectedIndex g
     \<and> ended g' = (ended g \<or> returned) \<and> (returned \<longrightarrow> countEmpty (field g') = 0)
     \<and> randomCalls g \<le> randomCalls g'"
  using assms
proof (induction i tryCounter obstacles g rule: placeLoop_induct[where random = random])
  case (1 i tryCounter obstacles g)
  let ?hit = "at2 (field g) (drawCell random (randomCalls g)) = 0"
  consider "\<not> i > 0" | "i > 0" ?hit
    | "i > 0" "\<not> ?hit" "int tryCounter > Game_size * Game_size" "countEmpty (field g) = 0"
    | "i > 0" "\<not> ?hit" "int tryCounter > Game_size * Game_size" "countEmpty (field g) \<noteq> 0"
    | "i > 0" "\<not> ?hit" "\<not> int tryCounter > Game_size * Game_size"
    by blast
  then show ?case
  proof cases
    case 1
    then show ?thesis using "1.prems" by (auto simp: placeLoop_done)
  next
    case 2
    then show ?thesis using "1.IH"(1) "1.prems"
      placeBall_simps(6)[of "g\<lparr>randomCalls := randomCalls g + 2\<rparr>" random "drawCell random (randomCalls g)"]
      by (simp add: placeLoop_hit placeBall_simps)
  next
    case 3
    then show ?thesis using "1.prems" by (auto simp: placeLoop_full Game_end_def)
  next
    case 4
    then show ?thesis using "1.IH"(2) "1.prems" by (simp add: placeLoop_giveup)
  next
    case 5
    then show ?thesis using "1.IH"(3) "1.prems" by (simp add: placeLoop_retry)
  qed
qed

lemma placeLoop_field:
  assumes "placeLoop random i tryCounter obstacles g = Some (returned, obstacles', g')"
  shows "\<exists>new. obstacles' = obstacles @ new \<and> placedOk (field g) new
     \<and> field g' = fold (\<lambda>c f. put2 f c 1) new (field g)
     \<and> length new \<le> nat i \<and> (returned \<longrightarrow> length new < nat i)
     \<and> (length new < nat i \<longrightarrow> randomCalls g + 2 * (83 - tryCounter) \<le> randomCalls g')"
  using assms
proof (induction i tryCounter obstacles g rule: placeLoop_induct[where random = random])
  case (1 i tryCounter obstacles g)
  let ?rand = "drawCell random (randomCalls g)"
  let ?g1 = "g\<lparr>randomCalls := randomCalls g + 2\<rparr>"
  let ?hit = "at2 (field g) ?rand = 0"
  consider "\<not> i > 0" | "i > 0" ?hit
    | "i > 0" "\<not> ?hit" "int tryCounter > Game_size * Game_size" "countEmpty (field g) = 0"
    | "i > 0" "\<not> ?hit" "int tryCounter > Game_size * Game_size" "countEmpty (field g) \<noteq> 0"
    | "i > 0" "\<not> ?hit" "\<not> int tryCounter > Game_size * Game_size"
    by blast
  then show ?case
  proof cases
    case 1
    then have "obstacles' = obstacles @ []" "g' = g" "\<not> returned"
      using "1.prems" by (auto simp: placeLoop_done)
    then show ?thesis using 1 by (intro exI[of _ "[]"]) simp
  next
    case 2
    let ?g2 = "placeBall random ?rand ?g1"
    have run: "placeLoop random (i - 1) 0 (obstacles @ [?rand]) ?g2 = Some (returned, obstacles', g')"
      using 2 "1.prems" by (simp add: placeLoop_hit)
    from "1.IH"(1)[OF 2 run] obtain new where
      n1: "obstacles' = (obstacles @ [?rand]) @ new" and n2: "placedOk (field ?g2) new"
      and n3: "field g' = fold (\<lambda>c f. put2 f c 1) new (field ?g2)"
      and n4: "length new \<le> nat (i - 1)" and n5: "returned \<longrightarrow> length new < nat (i - 1)"
      and n6: "length new < nat (i - 1) \<longrightarrow> randomCalls ?g2 + 2 * (83 - 0) \<le> randomCalls g'"
      by blast
    have f2: "field ?g2 = put2 (field g) ?rand 1" by (simp add: placeBall_simps)
    have rc: "randomCalls g + 2 \<le> randomCalls ?g2"
      using placeBall_simps(6)[of ?g1 random ?rand] by simp
    have "obstacles' = obstacles @ (?rand # new)" using n1 by simp
    moreover have "placedOk (field g) (?rand # new)"
      using n2 2 f2 by (simp add: inBounds_drawCell)
    moreover have "field g' = fold (\<lambda>c f. put2 f c 1) (?rand # new) (field g)"
      using n3 f2 by simp
    moreover have "length (?rand # new) \<le> nat i" using n4 2(1) by simp
    moreover have "returned \<longrightarrow> length (?rand # new) < nat i" using n5 2(1) by auto
    moreover have "length (?rand # new) < nat i \<longrightarrow>
        randomCalls g + 2 * (83 - tryCounter) \<le> randomCalls g'"
      using n6 rc 2(1) by auto
    ultimately show ?thesis by blast
  next
    case 3
    then have "obstacles' = obstacles @ []" "field g' = field g" "returned"
      "randomCalls g' = randomCalls g + 2"
      using "1.prems" by (auto simp: placeLoop_full Game_end_def)
    moreover have "83 - tryCounter \<le> 1" using 3(3) by (simp add: Game_size_def)
    ultimately show ?thesis using 3(1) by (intro exI[of _ "[]"]) simp
  next
    case 4
    have run: "placeLoop random (i - 1) tryCounter obstacles ?g1 = Some (returned, obstacles', g')"
      using 4 "1.prems" by (simp add: placeLoop_giveup)
    from "1.IH"(2)[OF 4 run] obtain new where
      n: "obstacles' = obstacles @ new" "placedOk (field ?g1) new"
      "field g' = fold (\<lambda>c f. put2 f c 1) new (field ?g1)"
      "length new \<le> nat (i - 1)"
      by blast
    have rc: "randomCalls ?g1 \<le> randomCalls g'" using placeLoop_frame[OF run] by simp
    have "83 - tryCounter \<le> 1" using 4(3) by (simp add: Game_size_def)
    then have "randomCalls g + 2 * (83 - tryCounter) \<le> randomCalls g'" using rc by simp
    moreover have "length new < nat i" using n(4) 4(1) by simp
    ultimately show ?thesis using n by (intro exI[of _ new]) simp
  next
    case 5
    have run: "placeLoop random i (tryCounter + 1) obstacles ?g1 = Some (returned, obstacles', g')"
      using 5 "1.prems" by (simp add: placeLoop_retry)
    from "1.IH"(3)[OF 5 run] obtain new where
      n: "obstacles' = obstacles @ new" "placedOk (field ?g1) new"
      "field g' = fold (\<lambda>c f. put2 f c 1) new (field ?g1)"
      "length new \<le> nat i" "returned \<longrightarrow> length new < nat i"
      and n6: "length new < nat i \<longrightarrow> randomCalls ?g1 + 2 * (83 - (tryCounter + 1)) \<le> randomCalls g'"
      by blast
    have "tryCounter \<le> 81" using 5(3) by (simp add: Game_size_def)
    then have "length new < nat i \<longrightarrow> randomCalls g + 2 * (83 - tryCounter) \<le> randomCalls g'"
      using n6 by auto
    then show ?thesis using n by (intro exI[of _ new]) simp
  qed
qed

lemma rev_butlast_nth:
  assumes "Suc k < length q"
  shows "rev (butlast q) ! k = rev q ! Suc k"
proof -
  from assms have "q \<noteq> []" by auto
  then obtain ys y where q: "q = ys @ [y]" by (cases q rule: rev_cases) auto
  then show ?thesis by simp
qed

lemma placeBall_calls:
  "randomCalls (placeBall random rand g) = randomCalls g + (if nextColors g = [] then 1 else 0)"
  by (simp add: placeBall_def pop_def newBall_def)

lemma placeLoop_cells:
  assumes "placeLoop random i tryCounter obstacles g = Some (returned, obstacles', g')"
  shows "\<exists>new cols. obstacles' = obstacles @ new \<and> length cols = length new
     \<and> cells g' = addBalls (cells g) new cols
     \<and> (\<forall>k < length new. k < length (nextColors g) \<longrightarrow> cols ! k = rev (nextColors g) ! k)
     \<and> (\<forall>k < length new. length (nextColors g) \<le> k \<longrightarrow>
           (\<exists>j \<ge> randomCalls g. j + 3 \<le> randomCalls g' \<and> new ! k = drawCell random j
              \<and> cols ! k = colors ! randomInt random (j + 2) (length colors)))"
  using assms
proof (induction i tryCounter obstacles g rule: placeLoop_induct[where random = random])
  case (1 i tryCounter obstacles g)
  let ?rand = "drawCell random (randomCalls g)"
  let ?g1 = "g\<lparr>randomCalls := randomCalls g + 2\<rparr>"
  let ?hit = "at2 (field g) ?rand = 0"
  let ?fresh = "\<lambda>g0 new cols. \<forall>k < length new. length (nextColors g0) \<le> k \<longrightarrow>
           (\<exists>j \<ge> randomCalls g0. j + 3 \<le> randomCalls g' \<and> new ! k = drawCell random j
              \<and> cols ! k = colors ! randomInt random (j + 2) (length colors))"
  have later: "?fresh g new cols" if "?fresh ?g1 new cols" for new :: "Coordinates list" and cols
  proof (intro allI impI)
    fix k assume k: "k < length new" "length (nextColors g) \<le> k"
    with that obtain j where "j \<ge> randomCalls ?g1" "j + 3 \<le> randomCalls g'"
      "new ! k = drawCell random j" "cols ! k = colors ! randomInt random (j + 2) (length colors)"
      by auto
    moreover from this have "j \<ge> randomCalls g" by simp
    ultimately show "\<exists>j \<ge> randomCalls g. j + 3 \<le> randomCalls g' \<and> new ! k = drawCell random j
              \<and> cols ! k = colors ! randomInt random (j + 2) (length colors)" by blast
  qed
  consider "\<not> i > 0" | "i > 0" ?hit
    | "i > 0" "\<not> ?hit" "int tryCounter > Game_size * Game_size" "countEmpty (field g) = 0"
    | "i > 0" "\<not> ?hit" "int tryCounter > Game_size * Game_size" "countEmpty (field g) \<noteq> 0"
    | "i > 0" "\<not> ?hit" "\<not> int tryCounter > Game_size * Game_size"
    by blast
  then show ?case
  proof cases
    case 1
    then have "obstacles' = obstacles @ []" "g' = g"
      using "1.prems" by (auto simp: placeLoop_done)
    then show ?thesis by (intro exI[of _ "[]"]) simp
  next
    case 2
    let ?g2 = "placeBall random ?rand ?g1"
    let ?q = "nextColors g"
    let ?col = "if ?q = [] then colors ! randomInt random (randomCalls ?g1) (length colors)
           else last ?q"
    have run: "placeLoop random (i - 1) 0 (obstacles @ [?rand]) ?g2 = Some (returned, obstacles', g')"
      using 2 "1.prems" by (simp add: placeLoop_hit)
    from "1.IH"(1)[OF 2 run] obtain new cols where
      n1: "obstacles' = (obstacles @ [?rand]) @ new" and n2: "length cols = length new"
      and n3: "cells g' = addBalls (cells ?g2) new cols"
      and n4: "\<forall>k < length new. k < length (nextColors ?g2) \<longrightarrow> cols ! k = rev (nextColors ?g2) ! k"
      and n5: "?fresh ?g2 new cols"
      by blast
    have c2: "cells ?g2 = put2 (cells g) ?rand (at2 (cells g) ?rand @ [?col])"
      using placeBall_cells[of random ?rand ?g1] by simp
    have q2: "nextColors ?g2 = butlast ?q" by (simp add: placeBall_simps)
    have rc2: "randomCalls ?g2 = randomCalls g + 2 + (if ?q = [] then 1 else 0)"
      using placeBall_calls[of random ?rand ?g1] by simp
    have rc': "randomCalls ?g2 \<le> randomCalls g'" using placeLoop_frame[OF run] by simp
    have "obstacles' = obstacles @ (?rand # new)" using n1 by simp
    moreover have "length (?col # cols) = length (?rand # new)" using n2 by simp
    moreover have "cells g' = addBalls (cells g) (?rand # new) (?col # cols)"
      using n3 c2 by simp
    moreover have "(?col # cols) ! k = rev ?q ! k"
      if "k < length (?rand # new)" "k < length ?q" for k
    proof (cases k)
      case 0
      from that(2) have "?q \<noteq> []" by auto
      then show ?thesis using 0 by (simp add: hd_rev hd_conv_nth[symmetric])
    next
      case (Suc k')
      then have "k' < length new" "k' < length (butlast ?q)" using that by auto
      then have "cols ! k' = rev (butlast ?q) ! k'" using n4 q2 by simp
      then show ?thesis using Suc that(2) by (simp add: rev_butlast_nth)
    qed
    moreover have "\<exists>j \<ge> randomCalls g. j + 3 \<le> randomCalls g' \<and> (?rand # new) ! k = drawCell random j
              \<and> (?col # cols) ! k = colors ! randomInt random (j + 2) (length colors)"
      if "k < length (?rand # new)" "length ?q \<le> k" for k
    proof (cases k)
      case 0
      then have e: "?q = []" using that(2) by simp
      then have "randomCalls g + 3 \<le> randomCalls g'" using rc2 rc' by simp
      then show ?thesis using 0 e by (intro exI[of _ "randomCalls g"]) simp
    next
      case (Suc k')
      then have "k' < length new" "length (nextColors ?g2) \<le> k'" using that q2 by auto
      with n5 obtain j where j: "j \<ge> randomCalls ?g2" "j + 3 \<le> randomCalls g'"
        "new ! k' = drawCell random j" "cols ! k' = colors ! randomInt random (j + 2) (length colors)"
        by blast
      from j(1) rc2 have "j \<ge> randomCalls g" by simp
      then show ?thesis using j Suc by (intro exI[of _ j]) simp
    qed
    ultimately show ?thesis by blast
  next
    case 3
    then have "obstacles' = obstacles @ []" "cells g' = cells g"
      using "1.prems" by (auto simp: placeLoop_full Game_end_def)
    then show ?thesis by (intro exI[of _ "[]"]) simp
  next
    case 4
    have run: "placeLoop random (i - 1) tryCounter obstacles ?g1 = Some (returned, obstacles', g')"
      using 4 "1.prems" by (simp add: placeLoop_giveup)
    from "1.IH"(2)[OF 4 run] obtain new cols where
      n: "obstacles' = obstacles @ new" "length cols = length new"
      "cells g' = addBalls (cells ?g1) new cols"
      "\<forall>k < length new. k < length (nextColors ?g1) \<longrightarrow> cols ! k = rev (nextColors ?g1) ! k"
      and n5: "?fresh ?g1 new cols"
      by blast
    from later[OF n5] n show ?thesis by (intro exI[of _ new] exI[of _ cols]) simp
  next
    case 5
    have run: "placeLoop random i (tryCounter + 1) obstacles ?g1 = Some (returned, obstacles', g')"
      using 5 "1.prems" by (simp add: placeLoop_retry)
    from "1.IH"(3)[OF 5 run] obtain new cols where
      n: "obstacles' = obstacles @ new" "length cols = length new"
      "cells g' = addBalls (cells ?g1) new cols"
      "\<forall>k < length new. k < length (nextColors ?g1) \<longrightarrow> cols ! k = rev (nextColors ?g1) ! k"
      and n5: "?fresh ?g1 new cols"
      by blast
    from later[OF n5] n show ?thesis by (intro exI[of _ new] exI[of _ cols]) simp
  qed
qed

lemma placedOk_props:
  assumes "gridShape f" "placedOk f new"
  shows "distinct new \<and> (\<forall>c \<in> set new. inBounds c \<and> at2 f c = 0)"
  using assms
proof (induction new arbitrary: f)
  case Nil
  then show ?case by simp
next
  case (Cons c new)
  then have c: "inBounds c" "at2 f c = 0" and rest: "placedOk (put2 f c 1) new" by simp_all
  from Cons.IH[OF gridShape_put2[OF Cons.prems(1)] rest]
  have d: "distinct new" and e: "\<forall>c' \<in> set new. inBounds c' \<and> at2 (put2 f c 1) c' = 0" by simp_all
  have o: "c' \<noteq> c \<and> at2 f c' = 0" if "c' \<in> set new" for c'
  proof -
    from e that have "inBounds c'" "at2 (put2 f c 1) c' = 0" by simp_all
    then show ?thesis using at2_put2[OF Cons.prems(1) c(1), of c' 1] by (auto split: if_splits)
  qed
  then have "c \<notin> set new" by blast
  moreover have "\<forall>c' \<in> set new. inBounds c' \<and> at2 f c' = 0" using o e by blast
  ultimately show ?case using c d by simp
qed

lemma gridShape_addBalls: "gridShape cs \<Longrightarrow> gridShape (addBalls cs new cols)"
  by (induction cs new cols rule: addBalls.induct) (simp_all add: gridShape_put2)

lemma addBalls_other:
  assumes "gridShape cs" "\<forall>c \<in> set new. inBounds c" "inBounds c'" "c' \<notin> set new"
  shows "at2 (addBalls cs new cols) c' = at2 cs c'"
  using assms
proof (induction cs new cols rule: addBalls.induct)
  case (1 cs c rest col cols)
  then show ?case by (simp add: gridShape_put2 at2_put2)
qed simp_all

lemma addBalls_nth:
  assumes "gridShape cs" "\<forall>c \<in> set new. inBounds c" "distinct new"
    "length cols = length new" "k < length new"
  shows "at2 (addBalls cs new cols) (new ! k) = at2 cs (new ! k) @ [cols ! k]"
  using assms
proof (induction cs new cols arbitrary: k rule: addBalls.induct)
  case (1 cs c rest col cols)
  show ?case
  proof (cases k)
    case 0
    have "at2 (addBalls (put2 cs c (at2 cs c @ [col])) rest cols) c
        = at2 (put2 cs c (at2 cs c @ [col])) c"
      using "1.prems" by (intro addBalls_other gridShape_put2) simp_all
    then show ?thesis using 0 "1.prems" by (simp add: at2_put2)
  next
    case (Suc k')
    then have k': "k' < length rest" using "1.prems" by simp
    then have ne: "rest ! k' \<noteq> c" using "1.prems"(3) by auto
    have "at2 (addBalls (put2 cs c (at2 cs c @ [col])) rest cols) (rest ! k')
        = at2 (put2 cs c (at2 cs c @ [col])) (rest ! k') @ [cols ! k']"
      using "1.prems" k' by (intro "1.IH" gridShape_put2) simp_all
    then show ?thesis using Suc ne "1.prems" k' by (simp add: at2_put2)
  qed
qed simp_all

lemma sweep_frame:
  "ended (fold removeMarked cs g) = ended g \<and> nextColors (fold removeMarked cs g) = nextColors g
   \<and> selectedIndex (fold removeMarked cs g) = selectedIndex g
   \<and> randomCalls (fold removeMarked cs g) = randomCalls g"
  by (induction cs arbitrary: g) (simp_all add: removeMarked_simps)

lemma popFives_ended:
  "ended (snd (popFives g)) = (ended g \<or> countEmpty (field (snd (popFives g))) = 0)"
  using sweep_frame[of allCells "g\<lparr>field := fold (\<lambda>k f. put2 f k (-1)) (findFives (ballColors (cells g))) (field g)\<rparr>"]
  by (simp add: popFives_def Let_def Game_end_def)

lemma popFives_nextColors: "nextColors (snd (popFives g)) = nextColors g"
  using sweep_frame[of allCells "g\<lparr>field := fold (\<lambda>k f. put2 f k (-1)) (findFives (ballColors (cells g))) (field g)\<rparr>"]
  by (simp add: popFives_def Let_def Game_end_def)

lemma randomCells_cases:
  assumes "placeLoop random ballCount 0 [] g = Some (returned, obstacles, g1)"
  shows "randomCells random g =
     Some (if returned then g1 else snd (popFives (nextColorsRefill random g1)))"
  using assms by (simp add: randomCells_def)

lemma placeLoop_summary:
  assumes shape: "gridShape (field g)"
    and run: "placeLoop random i tryCounter [] g = Some (returned, obstacles, g1)"
  shows "length obstacles \<le> nat i \<and> distinct obstacles
      \<and> (\<forall>c \<in> set obstacles. inBounds c \<and> at2 (field g) c = 0 \<and> at2 (field g1) c = 1)
      \<and> (\<forall>c. inBounds c \<and> c \<notin> set obstacles \<longrightarrow> at2 (field g1) c = at2 (field g) c)
      \<and> (length obstacles < nat i \<longrightarrow> randomCalls g + 2 * (83 - tryCounter) \<le> randomCalls g1)
      \<and> (returned \<longrightarrow> length obstacles < nat i)
      \<and> gridShape (field g1)"
proof -
  from placeLoop_field[OF run] have
    ok: "placedOk (field g) obstacles"
    and f1: "field g1 = fold (\<lambda>c f. put2 f c 1) obstacles (field g)"
    and len: "length obstacles \<le> nat i" "returned \<longrightarrow> length obstacles < nat i"
      "length obstacles < nat i \<longrightarrow> randomCalls g + 2 * (83 - tryCounter) \<le> randomCalls g1"
    by auto
  from placedOk_props[OF shape ok] have
    d: "distinct obstacles" and e: "\<forall>c \<in> set obstacles. inBounds c \<and> at2 (field g) c = 0"
    by simp_all
  have at: "at2 (field g1) c = (if c \<in> set obstacles then 1 else at2 (field g) c)"
    if "inBounds c" for c
    unfolding f1 using shape e that by (intro at2_fold_put2) simp_all
  have "gridShape (field g1)" unfolding f1 using shape by (rule gridShape_fold_put2)
  then show ?thesis using len d e at by auto
qed

text \<open>
  What the placement loop guarantees on every input. It always returns; it places at
  most \<open>ballCount\<close> markers, each into a distinct cell of the board that was empty before
  the call, and changes no other cell of the grid. It places fewer than \<open>ballCount\<close> only
  after at least \<open>Game.size\<^sup>2 + 2\<close> cell draws (an attempt is dropped once more than
  \<open>Game.size\<^sup>2\<close> consecutive draws have hit occupied cells), whatever the number of empty
  cells. It ends the game during placement only with fewer than \<open>ballCount\<close> markers placed
  and no empty cell left, and a call of \<open>randomCells\<close> that ends the game leaves no empty cell.
\<close>

theorem randomCells_placement:
  assumes "gridShape (field g)"
  shows "\<exists>returned obstacles g1.
      placeLoop random ballCount 0 [] g = Some (returned, obstacles, g1)
      \<and> length obstacles \<le> nat ballCount \<and> distinct obstacles
      \<and> (\<forall>c \<in> set obstacles. inBounds c \<and> at2 (field g) c = 0 \<and> at2 (field g1) c = 1)
      \<and> (\<forall>c. inBounds c \<and> c \<notin> set obstacles \<longrightarrow> at2 (field g1) c = at2 (field g) c)
      \<and> (length obstacles < nat ballCount \<longrightarrow>
           randomCalls g + 2 * nat (Game_size * Game_size + 2) \<le> randomCalls g1)
      \<and> (returned \<longrightarrow> length obstacles < nat ballCount \<and> countEmpty (field g1) = 0)
      \<and> ended g1 = (ended g \<or> returned)
      \<and> (\<forall>g'. randomCells random g = Some g' \<and> \<not> ended g \<and> ended g'
             \<longrightarrow> countEmpty (field g') = 0)"
proof -
  obtain returned obstacles g1 where
    run: "placeLoop random ballCount 0 [] g = Some (returned, obstacles, g1)"
    using placeLoop_returns[of random ballCount 0 "[]" g] by (metis prod_cases3)
  note s = placeLoop_summary[OF assms run]
  note f = placeLoop_frame[OF run]
  have calls: "length obstacles < nat ballCount \<longrightarrow>
           randomCalls g + 2 * nat (Game_size * Game_size + 2) \<le> randomCalls g1"
    using s by (simp add: Game_size_def)
  have fin: "countEmpty (field g') = 0"
    if "randomCells random g = Some g'" "\<not> ended g" "ended g'" for g'
  proof (cases returned)
    case True
    then show ?thesis using that(1) f randomCells_cases[OF run] by simp
  next
    case False
    then have g': "g' = snd (popFives (nextColorsRefill random g1))"
      using that(1) randomCells_cases[OF run] by simp
    have "\<not> ended (nextColorsRefill random g1)"
      using f False that(2) by (simp add: nextColorsRefill_def)
    then show ?thesis using that(3) popFives_ended[of "nextColorsRefill random g1"] g' by simp
  qed
  show ?thesis
    using run s f calls fin by blast
qed

lemma emptyQueued_place:
  "placeLoop rowDraws ballCount 0 [] emptyQueued =
     Some (False, [(0, 0), (0, 1), (0, 2)], emptyQueuedPlaced)"
  by code_simp

lemma emptyQueued_shape: "gridShape (field emptyQueued)" "gridShape (cells emptyQueued)"
  by (simp_all add: gridShape_def emptyQueued_def Game_size_def)

theorem randomCells_placement_witness:
  "gridShape (field emptyQueued)
   \<and> placeLoop rowDraws ballCount 0 [] emptyQueued
       = Some (False, [(0, 0), (0, 1), (0, 2)], emptyQueuedPlaced)
   \<and> distinct [(0, 0), (0, 1), (0::int, 2::int)]
   \<and> at2 (field emptyQueued) (0, 1) = 0 \<and> at2 (field emptyQueuedPlaced) (0, 1) = 1
   \<and> at2 (field emptyQueuedPlaced) (5, 5) = at2 (field emptyQueued) (5, 5)"
proof -
  from randomCells_placement[OF emptyQueued_shape(1), of rowDraws]
  obtain returned obstacles g1 where
    r: "placeLoop rowDraws ballCount 0 [] emptyQueued = Some (returned, obstacles, g1)"
    and d: "distinct obstacles"
    and a: "\<forall>c \<in> set obstacles. inBounds c \<and> at2 (field emptyQueued) c = 0 \<and> at2 (field g1) c = 1"
    and o: "\<forall>c. inBounds c \<and> c \<notin> set obstacles \<longrightarrow> at2 (field g1) c = at2 (field emptyQueued) c"
    by blast
  from r emptyQueued_place have eq: "obstacles = [(0, 0), (0, 1), (0, 2)]" "g1 = emptyQueuedPlaced"
    by simp_all
  have "inBounds (5, 5)" by (simp add: inBounds_def Game_size_def)
  then have "at2 (field emptyQueuedPlaced) (5, 5) = at2 (field emptyQueued) (5, 5)"
    using o eq by simp
  then show ?thesis
    using d a eq emptyQueued_place emptyQueued_shape(1) by simp
qed

section \<open>The colours of a batch\<close>

lemma nextColorsRefill_simps:
  "nextColors (nextColorsRefill random g) =
     map (\<lambda>i. colors ! randomInt random (randomCalls g + i) (length colors)) [0..<nat ballCount]"
  "field (nextColorsRefill random g) = field g"
  "cells (nextColorsRefill random g) = cells g"
  "points (nextColorsRefill random g) = points g"
  "ended (nextColorsRefill random g) = ended g"
  "selectedIndex (nextColorsRefill random g) = selectedIndex g"
  by (simp_all add: nextColorsRefill_def)

lemma refill_colors:
  "length (nextColors (nextColorsRefill random g)) = nat ballCount
   \<and> set (nextColors (nextColorsRefill random g)) \<subseteq> set colors"
proof -
  have "colors ! randomInt random k (length colors) \<in> set colors" for k
    by (rule nth_mem) (simp add: randomInt_def colors_def)
  then show ?thesis by (auto simp: nextColorsRefill_simps(1))
qed

text \<open>
  C3, as the code has it. The colours of a batch are taken from the back of the pending
  queue (\<open>pop\<close>): while the queue lasts, the \<open>k\<close>-th marker placed in a call is a ball of
  the \<open>k\<close>-th colour counted from the end of the queue, appended to its cell. A marker
  placed after the queue has run out is a ball of a freshly drawn colour: the colour of the
  palette that the call of \<open>Math.random()\<close> following the two calls that drew its cell
  selects. After a batch that did not end the game during placement, the queue holds
  \<open>ballCount\<close> freshly drawn colours of the palette.
\<close>

theorem spawn_colours:
  assumes "gridShape (field g)" and "gridShape (cells g)"
  shows "\<exists>returned obstacles g1.
      placeLoop random ballCount 0 [] g = Some (returned, obstacles, g1)
      \<and> (\<forall>k < length obstacles. k < length (nextColors g) \<longrightarrow>
            at2 (cells g1) (obstacles ! k)
              = at2 (cells g) (obstacles ! k) @ [rev (nextColors g) ! k])
      \<and> (\<forall>k < length obstacles. length (nextColors g) \<le> k \<longrightarrow>
            (\<exists>j \<ge> randomCalls g. j + 3 \<le> randomCalls g1
               \<and> obstacles ! k = drawCell random j
               \<and> at2 (cells g1) (obstacles ! k)
                    = at2 (cells g) (obstacles ! k)
                      @ [colors ! randomInt random (j + 2) (length colors)]))
      \<and> (\<not> returned \<longrightarrow>
            (\<exists>g'. randomCells random g = Some g'
               \<and> nextColors g' = map (\<lambda>i. colors ! randomInt random (randomCalls g1 + i)
                                       (length colors)) [0..<nat ballCount]
               \<and> length (nextColors g') = nat ballCount
               \<and> set (nextColors g') \<subseteq> set colors))"
proof -
  obtain returned obstacles g1 where
    run: "placeLoop random ballCount 0 [] g = Some (returned, obstacles, g1)"
    using placeLoop_returns[of random ballCount 0 "[]" g] by (metis prod_cases3)
  from placeLoop_summary[OF assms(1) run] have
    d: "distinct obstacles" and b: "\<forall>c \<in> set obstacles. inBounds c" by auto
  from placeLoop_cells[OF run] obtain cols where
    len: "length cols = length obstacles"
    and c1: "cells g1 = addBalls (cells g) obstacles cols"
    and col: "\<forall>k < length obstacles. k < length (nextColors g) \<longrightarrow> cols ! k = rev (nextColors g) ! k"
    and fresh: "\<forall>k < length obstacles. length (nextColors g) \<le> k \<longrightarrow>
           (\<exists>j \<ge> randomCalls g. j + 3 \<le> randomCalls g1 \<and> obstacles ! k = drawCell random j
              \<and> cols ! k = colors ! randomInt random (j + 2) (length colors))"
    by auto
  have at: "at2 (cells g1) (obstacles ! k) = at2 (cells g) (obstacles ! k) @ [cols ! k]"
    if "k < length obstacles" for k
    unfolding c1 using addBalls_nth[OF assms(2) b d len that] .
  have placed: "at2 (cells g1) (obstacles ! k) = at2 (cells g) (obstacles ! k) @ [rev (nextColors g) ! k]"
    if "k < length obstacles" "k < length (nextColors g)" for k
    using at[OF that(1)] col that by simp
  have drawn: "\<exists>j \<ge> randomCalls g. j + 3 \<le> randomCalls g1
               \<and> obstacles ! k = drawCell random j
               \<and> at2 (cells g1) (obstacles ! k)
                    = at2 (cells g) (obstacles ! k)
                      @ [colors ! randomInt random (j + 2) (length colors)]"
    if "k < length obstacles" "length (nextColors g) \<le> k" for k
  proof -
    from fresh that obtain j where "j \<ge> randomCalls g" "j + 3 \<le> randomCalls g1"
      "obstacles ! k = drawCell random j"
      "cols ! k = colors ! randomInt random (j + 2) (length colors)"
      by blast
    then show ?thesis using at[OF that(1)] by (intro exI[of _ j]) simp
  qed
  have refill: "\<exists>g'. randomCells random g = Some g'
               \<and> nextColors g' = map (\<lambda>i. colors ! randomInt random (randomCalls g1 + i)
                                       (length colors)) [0..<nat ballCount]
               \<and> length (nextColors g') = nat ballCount
               \<and> set (nextColors g') \<subseteq> set colors" if "\<not> returned"
    using that randomCells_cases[OF run] refill_colors[of random g1]
    by (simp add: popFives_nextColors nextColorsRefill_simps(1))
  show ?thesis using run placed drawn refill by blast
qed

lemma initialGame_place:
  "map_option (\<lambda>r. (fst r, fst (snd r), at2 (cells (snd (snd r))) (1, 0),
                     randomCalls (snd (snd r))))
     (placeLoop rowDraws ballCount 0 [] initialGame)
   = Some (False, [(0, 0), (1, 0), (0, 3)], [red], 9)"
  by code_simp

lemma rowDraws_cell: "drawCell rowDraws j = (1, 0) \<Longrightarrow> j + 3 \<le> 9 \<Longrightarrow> j = 3"
proof -
  assume a: "drawCell rowDraws j = (1, 0)" and "j + 3 \<le> 9"
  then have "j \<in> {0, 1, 2, 3, 4, 5, 6}" by auto
  then show "j = 3"
    using a by (auto simp: drawCell_def randomInt_def rowDraws_def Game_size_def)
qed

theorem spawn_colours_witness:
  "gridShape (field emptyQueued) \<and> gridShape (cells emptyQueued)
   \<and> placeLoop rowDraws ballCount 0 [] emptyQueued
       = Some (False, [(0, 0), (0, 1), (0, 2)], emptyQueuedPlaced)
   \<and> at2 (cells emptyQueuedPlaced) (0, 0) = at2 (cells emptyQueued) (0, 0) @ [blue]
   \<and> at2 (cells emptyQueuedPlaced) (0, 1) = at2 (cells emptyQueued) (0, 1) @ [lime]
   \<and> at2 (cells emptyQueuedPlaced) (0, 2) = at2 (cells emptyQueued) (0, 2) @ [red]
   \<and> gridShape (field initialGame) \<and> gridShape (cells initialGame)
   \<and> nextColors initialGame = []
   \<and> map_option (\<lambda>r. (fst r, fst (snd r), at2 (cells (snd (snd r))) (1, 0),
                       randomCalls (snd (snd r))))
        (placeLoop rowDraws ballCount 0 [] initialGame)
      = Some (False, [(0, 0), (1, 0), (0, 3)],
              at2 (cells initialGame) (1, 0) @ [colors ! randomInt rowDraws (3 + 2) (length colors)], 9)"
proof -
  from spawn_colours[OF emptyQueued_shape, of rowDraws]
  obtain returned obstacles g1 where
    r: "placeLoop rowDraws ballCount 0 [] emptyQueued = Some (returned, obstacles, g1)"
    and a: "\<forall>k < length obstacles. k < length (nextColors emptyQueued) \<longrightarrow>
            at2 (cells g1) (obstacles ! k)
              = at2 (cells emptyQueued) (obstacles ! k) @ [rev (nextColors emptyQueued) ! k]"
    by blast
  from r emptyQueued_place have eq: "obstacles = [(0, 0), (0, 1), (0, 2)]" "g1 = emptyQueuedPlaced"
    by simp_all
  have q: "nextColors emptyQueued = [red, lime, blue]" by (simp add: emptyQueued_def)
  from a[rule_format, of 0] a[rule_format, of 1] a[rule_format, of 2]
  have first: "at2 (cells emptyQueuedPlaced) (0, 0) = at2 (cells emptyQueued) (0, 0) @ [blue]
   \<and> at2 (cells emptyQueuedPlaced) (0, 1) = at2 (cells emptyQueued) (0, 1) @ [lime]
   \<and> at2 (cells emptyQueuedPlaced) (0, 2) = at2 (cells emptyQueued) (0, 2) @ [red]"
    unfolding eq q by simp
  have shape: "gridShape (field initialGame)" "gridShape (cells initialGame)"
    by (simp_all add: gridShape_def initialGame_def)
  have q0: "nextColors initialGame = []" by (simp add: initialGame_def)
  from spawn_colours[OF shape, of rowDraws]
  obtain returned' obstacles' g1' where
    r': "placeLoop rowDraws ballCount 0 [] initialGame = Some (returned', obstacles', g1')"
    and f: "\<forall>k < length obstacles'. length (nextColors initialGame) \<le> k \<longrightarrow>
            (\<exists>j \<ge> randomCalls initialGame. j + 3 \<le> randomCalls g1'
               \<and> obstacles' ! k = drawCell rowDraws j
               \<and> at2 (cells g1') (obstacles' ! k)
                    = at2 (cells initialGame) (obstacles' ! k)
                      @ [colors ! randomInt rowDraws (j + 2) (length colors)])"
    by blast
  from r' initialGame_place have e': "returned' = False" "obstacles' = [(0, 0), (1, 0), (0, 3)]"
    "at2 (cells g1') (1, 0) = [red]" "randomCalls g1' = 9"
    by simp_all
  have k1: "1 < length obstacles'" "length (nextColors initialGame) \<le> 1"
    using e'(2) q0 by simp_all
  from f[rule_format, OF k1] obtain j where j0: "j + 3 \<le> randomCalls g1'"
    "obstacles' ! 1 = drawCell rowDraws j"
    "at2 (cells g1') (obstacles' ! 1) = at2 (cells initialGame) (obstacles' ! 1)
        @ [colors ! randomInt rowDraws (j + 2) (length colors)]"
    by blast
  have o1: "obstacles' ! 1 = (1, 0)" using e'(2) by simp
  have j: "j + 3 \<le> 9" "drawCell rowDraws j = (1, 0)"
    "at2 (cells g1') (1, 0) = at2 (cells initialGame) (1, 0)
        @ [colors ! randomInt rowDraws (j + 2) (length colors)]"
    using j0 o1 e'(4) by simp_all
  from rowDraws_cell[OF j(2) j(1)] have "j = 3" .
  then have second: "map_option (\<lambda>r. (fst r, fst (snd r), at2 (cells (snd (snd r))) (1, 0),
                       randomCalls (snd (snd r))))
        (placeLoop rowDraws ballCount 0 [] initialGame)
      = Some (False, [(0, 0), (1, 0), (0, 3)],
              at2 (cells initialGame) (1, 0) @ [colors ! randomInt rowDraws (3 + 2) (length colors)], 9)"
    using j(3) r' e' by simp
  show ?thesis
    by (intro conjI emptyQueued_shape emptyQueued_place first[THEN conjunct1]
        first[THEN conjunct2, THEN conjunct1] first[THEN conjunct2, THEN conjunct2]
        shape q0 second)
qed

text \<open>
  On the empty board with the queue \<open>[red, lime, blue]\<close> the first marker placed, at
  \<open>(0, 0)\<close>, is blue, the last colour of the queue, not its front colour red.
\<close>

theorem spawn_colours_counterexample:
  "placeLoop rowDraws ballCount 0 [] emptyQueued
       = Some (False, [(0, 0), (0, 1), (0, 2)], emptyQueuedPlaced)
   \<and> at2 (cells emptyQueued) (0, 0) = []
   \<and> at2 (cells emptyQueuedPlaced) (0, 0) = [blue]
   \<and> nextColors emptyQueued ! 0 = red
   \<and> at2 (cells emptyQueuedPlaced) ([(0, 0), (0, 1), (0, 2)] ! 0) \<noteq> [nextColors emptyQueued ! 0]"
  using emptyQueued_place
  by (simp add: emptyQueued_def emptyQueuedPlaced_def at2_def)

section \<open>The score never decreases\<close>

lemma randomCells_points:
  assumes "randomCells random g = Some g'"
  shows "points g \<le> points g'"
proof -
  obtain returned obstacles g1 where
    run: "placeLoop random ballCount 0 [] g = Some (returned, obstacles, g1)"
    using placeLoop_returns[of random ballCount 0 "[]" g] by (metis prod_cases3)
  have p1: "points g1 = points g" using placeLoop_frame[OF run] by simp
  show ?thesis
  proof (cases returned)
    case True
    then show ?thesis using assms randomCells_cases[OF run] p1 by simp
  next
    case False
    then have "g' = snd (popFives (nextColorsRefill random g1))"
      using assms randomCells_cases[OF run] by simp
    then show ?thesis
      using popFives_points_mono[of "nextColorsRefill random g1"] p1
      by (simp add: nextColorsRefill_simps)
  qed
qed

lemma handleClicks_points:
  assumes "handleClicks g coords = Some (g', t)"
  shows "points g \<le> points g'"
proof (cases "firstChild (at2 (cells g) coords) \<noteq> None")
  case True
  then show ?thesis using assms by (auto simp: handleClicks_def split: if_splits)
next
  case False
  show ?thesis
  proof (cases "selectedIndex g")
    case None
    then show ?thesis using assms False by (simp add: handleClicks_def)
  next
    case (Some sel)
    obtain result where r: "getPath g sel coords = Some result"
      using getPath_loop_returns unfolding getPath_def by blast
    show ?thesis
    proof (cases "found result")
      case True
      let ?g = "g\<lparr>cells := moveBall (cells g) sel coords,
                   field := put2 (put2 (field g) coords 1) sel 0\<rparr>"
      have "g' = (snd (popFives ?g))\<lparr>selectedIndex := None\<rparr>"
        using assms False Some r True by (simp add: handleClicks_def split: prod.splits)
      then show ?thesis using popFives_points_mono[of ?g] by simp
    next
      case no: False
      then show ?thesis using assms False Some r by (auto simp: handleClicks_def)
    qed
  qed
qed

text \<open>
  C7. No operation lowers the score: not \<open>popFives\<close>, \<open>randomCells\<close>, the click handler or
  its timer callback. On a grid that holds only \<open>0\<close> and \<open>1\<close>, one run of \<open>popFives\<close> raises the
  score by exactly the number of cells in the clear-set.
\<close>

theorem points_monotone:
  "points g \<le> points (snd (popFives g))
   \<and> (\<forall>g'. randomCells random g = Some g' \<longrightarrow> points g \<le> points g')
   \<and> (\<forall>g' t. handleClicks g coords = Some (g', t) \<longrightarrow> points g \<le> points g')
   \<and> (\<forall>g'. moveTimeout random popped g = Some g' \<longrightarrow> points g \<le> points g')
   \<and> (fieldOk (field g) \<longrightarrow>
        points (snd (popFives g)) = points g + card (set (findFives (ballColors (cells g)))))"
proof (intro conjI allI impI)
  show "points g \<le> points (snd (popFives g))" by (rule popFives_points_mono)
next
  fix g' assume "randomCells random g = Some g'"
  then show "points g \<le> points g'" by (rule randomCells_points)
next
  fix g' t assume "handleClicks g coords = Some (g', t)"
  then show "points g \<le> points g'" by (rule handleClicks_points)
next
  fix g' assume "moveTimeout random popped g = Some g'"
  then show "points g \<le> points g'"
    using randomCells_points[of random g g'] by (cases popped) (simp_all add: moveTimeout_def)
next
  assume "fieldOk (field g)"
  then have "points (snd (popFives g)) = points g + length (findFives (ballColors (cells g)))"
    by (rule popFives_points)
  moreover have "card (set (findFives (ballColors (cells g)))) = length (findFives (ballColors (cells g)))"
    using distinct_findFives by (rule distinct_card)
  ultimately show "points (snd (popFives g)) = points g + card (set (findFives (ballColors (cells g))))"
    by simp
qed

lemma fiveRow_fieldOk: "fieldOk (field (fiveRow col))"
proof -
  have "\<forall>c \<in> set allCells. at2 (field (fiveRow col)) c = 0 \<or> at2 (field (fiveRow col)) c = 1"
    by (cases col; hypsubst; code_simp)
  then show ?thesis by (simp add: fieldOk_def gridShape_def fiveRow_def Game_size_def)
qed

theorem points_monotone_witness:
  "fieldOk (field (fiveRow red))
   \<and> card (set (findFives (ballColors (cells (fiveRow red))))) = 5
   \<and> points (fiveRow red) = 0
   \<and> points (snd (popFives (fiveRow red))) = 5"
proof -
  have p: "points (fiveRow red) = 0" by (simp add: fiveRow_def)
  have c: "card (set (findFives (ballColors (cells (fiveRow red))))) = 5"
    by (simp add: fiveRow_findFives)
  have "points (snd (popFives (fiveRow red)))
      = points (fiveRow red) + card (set (findFives (ballColors (cells (fiveRow red)))))"
    using points_monotone[THEN conjunct2, THEN conjunct2, THEN conjunct2, THEN conjunct2,
        of "fiveRow red"] fiveRow_fieldOk[of red]
    by (rule mp)
  then show ?thesis using p c fiveRow_fieldOk[of red] by simp
qed

section \<open>A rejected move\<close>

text \<open>
  C9. When a ball is selected, the clicked cell holds no ball and the search reports
  \<open>found = false\<close>, the handler clears the selection and changes nothing else: the grid,
  the cells' balls, the score and the queue stay as they were, and no timer callback (hence
  no spawn) is scheduled.
\<close>

theorem handleClicks_unreachable:
  assumes "firstChild (at2 (cells g) coords) = None"
    and "selectedIndex g = Some sel"
    and "getPath g sel coords = Some result"
    and "\<not> found result"
  shows "handleClicks g coords = Some (g\<lparr>selectedIndex := None\<rparr>, None)
     \<and> (\<forall>g' t. handleClicks g coords = Some (g', t) \<longrightarrow>
           selectedIndex g' = None \<and> field g' = field g \<and> cells g' = cells g
           \<and> points g' = points g \<and> nextColors g' = nextColors g \<and> t = None)"
  using assms by (simp add: handleClicks_def)

lemma cornered_path:
  "getPath cornered (0, 0) (5, 5) = Some \<lparr>path = [], found = False\<rparr>"
  by code_simp

theorem handleClicks_unreachable_witness:
  "firstChild (at2 (cells cornered) (5, 5)) = None
   \<and> selectedIndex cornered = Some (0, 0)
   \<and> getPath cornered (0, 0) (5, 5) = Some \<lparr>path = [], found = False\<rparr>
   \<and> \<not> found \<lparr>path = [], found = False\<rparr>
   \<and> handleClicks cornered (5, 5) = Some (cornered\<lparr>selectedIndex := None\<rparr>, None)"
proof -
  have a: "firstChild (at2 (cells cornered) (5, 5)) = None"
    by (simp add: cornered_def at2_def firstChild_def)
  have b: "selectedIndex cornered = Some (0, 0)" by (simp add: cornered_def)
  have c: "\<not> found \<lparr>path = [], found = False\<rparr>" by simp
  have d: "handleClicks cornered (5, 5) = Some (cornered\<lparr>selectedIndex := None\<rparr>, None)"
    using handleClicks_unreachable[OF a b cornered_path c] by (rule conjunct1)
  show ?thesis by (intro conjI a b cornered_path c d)
qed

section \<open>Spawning on nearly full boards\<close>

lemma threeLeft_empty: "countEmpty (field threeLeft) = 3"
  by code_simp

lemma threeLeft_place:
  "placeLoop cycleDraws ballCount 0 [] threeLeft = Some (False, [], threeLeft\<lparr>randomCalls := 170\<rparr>)"
  by code_simp

lemma threeLeft_popFives:
  "field (snd (popFives (nextColorsRefill cycleDraws (threeLeft\<lparr>randomCalls := 170\<rparr>))))
     = field threeLeft"
  "cells (snd (popFives (nextColorsRefill cycleDraws (threeLeft\<lparr>randomCalls := 170\<rparr>))))
     = cells threeLeft"
  "ended (snd (popFives (nextColorsRefill cycleDraws (threeLeft\<lparr>randomCalls := 170\<rparr>))))
     = False"
  by code_simp+

text \<open>
  C2. The board \<open>threeLeft\<close> has three empty cells, as many as \<open>ballCount\<close>. Under a random
  source that keeps drawing occupied cells, the placement loop makes 83 draws for the first
  marker and then drops all three attempts: it returns without having placed any marker and
  without ending the game, and \<open>randomCells\<close> leaves grid and cells as they were.
\<close>

theorem randomCells_gives_up:
  "countEmpty (field threeLeft) = 3
   \<and> placeLoop cycleDraws ballCount 0 [] threeLeft
       = Some (False, [], threeLeft\<lparr>randomCalls := 170\<rparr>)
   \<and> map_option (\<lambda>g. (field g, cells g, ended g)) (randomCells cycleDraws threeLeft)
       = Some (field threeLeft, cells threeLeft, False)"
  using threeLeft_empty threeLeft_place threeLeft_popFives
  by (simp add: randomCells_cases[OF threeLeft_place])

lemma almostFull_place:
  "placeLoop lineDraws ballCount 0 [] almostFull = Some (True, [(0, 4)], almostFullEnd)"
  by code_simp

lemma almostFullEnd_line:
  "findFives (ballColors (cells almostFullEnd)) = [(0, 0), (0, 1), (0, 2), (0, 3), (0, 4)]"
  by code_simp

lemma lineGap_place:
  "placeLoop lineDraws ballCount 0 [] lineGap
     = Some (False, [(0, 4), (8, 7), (8, 8)], lineGapPlaced)"
  by code_simp

lemma lineGap_popFives:
  "points (snd (popFives (nextColorsRefill lineDraws lineGapPlaced))) = 5"
  "ended (snd (popFives (nextColorsRefill lineDraws lineGapPlaced))) = False"
  "findFives (ballColors (cells (snd (popFives (nextColorsRefill lineDraws lineGapPlaced))))) = []"
  by code_simp+

text \<open>
  A batch that is not followed by \<open>popFives\<close>. On \<open>almostFull\<close> the first ball of the batch,
  a red one, lands on \<open>(0, 4)\<close> and completes a red line of five while filling the board. The
  placement loop then finds no empty cell, ends the game and returns: \<open>popFives\<close> does not
  run, the line stays on the board and the score is unchanged.
\<close>

theorem randomCells_early_return:
  "randomCells lineDraws almostFull = Some almostFullEnd
   \<and> ended almostFullEnd \<and> points almostFullEnd = points almostFull
   \<and> findFives (ballColors (cells almostFullEnd)) = [(0, 0), (0, 1), (0, 2), (0, 3), (0, 4)]
   \<and> at2 (cells almostFullEnd) (0, 4) = [red]"
proof -
  have "at2 (cells almostFullEnd) (0, 4) = [red]" by code_simp
  then show ?thesis
    using almostFullEnd_line
    by (simp add: randomCells_cases[OF almostFull_place] almostFullEnd_def)
qed

section \<open>The board after popFives and the grid invariant\<close>

lemma removeMarked_cells_other:
  assumes "gridShape (cells g)" "inBounds c" "inBounds c'" "c' \<noteq> c"
  shows "at2 (cells (removeMarked c g)) c' = at2 (cells g) c'"
  using assms by (simp add: removeMarked_simps at2_put2)

lemma sweep_field_at:
  assumes "distinct cs" "\<forall>c \<in> set cs. inBounds c" "gridShape (field g)" "inBounds c'"
  shows "at2 (field (fold removeMarked cs g)) c'
           = (if c' \<in> set cs \<and> at2 (field g) c' = -1 then 0 else at2 (field g) c')"
  using assms
proof (induction cs arbitrary: g)
  case Nil
  then show ?case by simp
next
  case (Cons c cs)
  let ?g = "removeMarked c g"
  have ih: "at2 (field (fold removeMarked cs ?g)) c'
           = (if c' \<in> set cs \<and> at2 (field ?g) c' = -1 then 0 else at2 (field ?g) c')"
    using Cons.prems by (intro Cons.IH removeMarked_shape) simp_all
  show ?case
  proof (cases "c' = c")
    case True
    then have "c' \<notin> set cs" using Cons.prems(1) by simp
    moreover have "at2 (field ?g) c = (if at2 (field g) c = -1 then 0 else at2 (field g) c)"
      using Cons.prems by (simp add: removeMarked_simps at2_put2)
    ultimately show ?thesis using ih True by simp
  next
    case False
    then have "at2 (field ?g) c' = at2 (field g) c'"
      using removeMarked_field_other[of g c c'] Cons.prems by simp
    then show ?thesis using ih False by simp
  qed
qed

lemma sweep_cells_at:
  assumes "distinct cs" "\<forall>c \<in> set cs. inBounds c" "gridShape (field g)" "gridShape (cells g)"
    "inBounds c'"
  shows "at2 (cells (fold removeMarked cs g)) c'
           = (if c' \<in> set cs \<and> at2 (field g) c' = -1 then [] else at2 (cells g) c')"
  using assms
proof (induction cs arbitrary: g)
  case Nil
  then show ?case by simp
next
  case (Cons c cs)
  let ?g = "removeMarked c g"
  have ih: "at2 (cells (fold removeMarked cs ?g)) c'
           = (if c' \<in> set cs \<and> at2 (field ?g) c' = -1 then [] else at2 (cells ?g) c')"
    using Cons.prems by (intro Cons.IH removeMarked_shape) simp_all
  show ?case
  proof (cases "c' = c")
    case True
    then have "c' \<notin> set cs" using Cons.prems(1) by simp
    moreover have "at2 (cells ?g) c = (if at2 (field g) c = -1 then [] else at2 (cells g) c)"
      using Cons.prems by (simp add: removeMarked_simps at2_put2)
    ultimately show ?thesis using ih True by simp
  next
    case False
    then have "at2 (field ?g) c' = at2 (field g) c'" "at2 (cells ?g) c' = at2 (cells g) c'"
      using removeMarked_field_other[of g c c'] removeMarked_cells_other[of g c c'] Cons.prems
      by simp_all
    then show ?thesis using ih False by simp
  qed
qed

lemma popFives_state:
  "field (snd (popFives g)) =
     field (fold removeMarked allCells
       (g\<lparr>field := fold (\<lambda>k f. put2 f k (-1)) (findFives (ballColors (cells g))) (field g)\<rparr>))"
  "cells (snd (popFives g)) =
     cells (fold removeMarked allCells
       (g\<lparr>field := fold (\<lambda>k f. put2 f k (-1)) (findFives (ballColors (cells g))) (field g)\<rparr>))"
  by (simp_all add: popFives_def Let_def Game_end_def)

lemma popFives_at:
  assumes "fieldOk (field g)" "inBounds c"
  shows "at2 (field (snd (popFives g))) c
           = (if c \<in> set (findFives (ballColors (cells g))) then 0 else at2 (field g) c)"
    and "gridShape (cells g) \<Longrightarrow> at2 (cells (snd (popFives g))) c
           = (if c \<in> set (findFives (ballColors (cells g))) then [] else at2 (cells g) c)"
proof -
  let ?td = "findFives (ballColors (cells g))"
  let ?f1 = "fold (\<lambda>k f. put2 f k (-1)) ?td (field g)"
  let ?g1 = "g\<lparr>field := ?f1\<rparr>"
  have shape: "gridShape (field g)" using assms by (simp add: fieldOk_def)
  have tdb: "\<forall>k \<in> set ?td. inBounds k" using findFives_inBounds by blast
  have inb: "\<forall>c \<in> set allCells. inBounds c" by (simp add: set_allCells)
  have call: "c \<in> set allCells" using assms(2) by (simp add: set_allCells)
  have f1: "at2 ?f1 c = (if c \<in> set ?td then -1 else at2 (field g) c)"
    using at2_fold_put2[OF shape tdb assms(2), of "-1"] .
  have ne: "at2 (field g) c \<noteq> -1" using assms call by (auto simp: fieldOk_def)
  have s1: "gridShape (field ?g1)" using shape by (simp add: gridShape_fold_put2)
  show "at2 (field (snd (popFives g))) c = (if c \<in> set ?td then 0 else at2 (field g) c)"
    unfolding popFives_state
    using sweep_field_at[OF distinct_allCells inb s1 assms(2)] f1 ne call by simp
  show "at2 (cells (snd (popFives g))) c = (if c \<in> set ?td then [] else at2 (cells g) c)"
    if "gridShape (cells g)"
    unfolding popFives_state
    using sweep_cells_at[OF distinct_allCells inb s1 _ assms(2)] that f1 ne call by simp
qed

lemma popFives_shape:
  "gridShape (field g) \<Longrightarrow> gridShape (field (snd (popFives g)))"
  "gridShape (cells g) \<Longrightarrow> gridShape (cells (snd (popFives g)))"
  unfolding popFives_state by (simp_all add: sweep_shape gridShape_fold_put2)

lemma fieldOk_popFives:
  assumes "fieldOk (field g)"
  shows "fieldOk (field (snd (popFives g)))"
proof -
  have "gridShape (field (snd (popFives g)))"
    using assms by (simp add: fieldOk_def popFives_shape)
  moreover have "at2 (field (snd (popFives g))) c = 0 \<or> at2 (field (snd (popFives g))) c = 1"
    if "c \<in> set allCells" for c
  proof -
    have "inBounds c" using that by (simp add: set_allCells)
    from popFives_at(1)[OF assms this] show ?thesis using assms that by (auto simp: fieldOk_def)
  qed
  ultimately show ?thesis by (simp add: fieldOk_def)
qed

lemma ballColors_at:
  assumes "gridShape cs" "inBounds c"
  shows "at2 (ballColors cs) c = firstChild (at2 cs c)"
proof -
  have "nat (fst c) < length cs" using assms by (simp add: gridShape_def inBounds_def)
  moreover from this have "nat (snd c) < length (cs ! nat (fst c))"
    using assms by (simp add: gridShape_def inBounds_def)
  ultimately show ?thesis by (simp add: ballColors_def at2_def)
qed

lemma popFives_no_five:
  assumes "fieldOk (field g)" "gridShape (cells g)"
  shows "findFives (ballColors (cells (snd (popFives g)))) = []"
proof (rule ccontr)
  let ?td = "findFives (ballColors (cells g))"
  let ?bc = "ballColors (cells g)"
  let ?bc' = "ballColors (cells (snd (popFives g)))"
  assume "findFives ?bc' \<noteq> []"
  then obtain p where "p \<in> set (findFives ?bc')" by (cases "findFives ?bc'") auto
  then obtain c d where d: "d \<in> set lineDirections" and five: "fiveInLine ?bc' c d"
    using findFives_member by blast
  have shape': "gridShape (cells (snd (popFives g)))" using assms(2) by (rule popFives_shape)
  have at: "at2 ?bc' q = (if q \<in> set ?td then None else at2 ?bc q)" if "inBounds q" for q
    using ballColors_at[OF shape' that] ballColors_at[OF assms(2) that]
      popFives_at(2)[OF assms(1) that assms(2)]
    by (simp add: firstChild_def)
  have cin: "c \<in> set (window c d)" by (rule window_first)
  have w: "inBounds q \<and> at2 ?bc' q = at2 ?bc' c \<and> at2 ?bc' c \<noteq> None"
    if "q \<in> set (window c d)" for q
    using five that by (simp add: fiveInLine_def)
  have keep: "q \<notin> set ?td \<and> at2 ?bc q = at2 ?bc' q" if "q \<in> set (window c d)" for q
    using w[OF that] at[of q] by (auto split: if_splits)
  have "fiveInLine ?bc c d"
    unfolding fiveInLine_def using w keep cin by metis
  then have "c \<in> set ?td" using findFives_member d cin by blast
  then show False using keep[OF cin] by simp
qed

lemma fieldOk_placeLoop:
  assumes "fieldOk (field g)"
    and run: "placeLoop random i tryCounter [] g = Some (returned, obstacles, g1)"
  shows "fieldOk (field g1)"
proof -
  have shape: "gridShape (field g)" using assms(1) by (simp add: fieldOk_def)
  note s = placeLoop_summary[OF shape run]
  have "at2 (field g1) c = 0 \<or> at2 (field g1) c = 1" if "c \<in> set allCells" for c
  proof (cases "c \<in> set obstacles")
    case True
    then show ?thesis using s by simp
  next
    case False
    have "inBounds c" using that by (simp add: set_allCells)
    then have "at2 (field g1) c = at2 (field g) c" using s False by blast
    then show ?thesis using assms(1) that by (simp add: fieldOk_def)
  qed
  then show ?thesis using s by (simp add: fieldOk_def)
qed

lemma cells_placeLoop:
  assumes "gridShape (cells g)"
    and run: "placeLoop random i tryCounter obstacles g = Some (returned, obstacles', g1)"
  shows "gridShape (cells g1)"
  using placeLoop_cells[OF run] assms(1) gridShape_addBalls by auto

text \<open>
  C10, as the code has it. Every spawn batch whose placement loop runs to its end is
  followed at once by run detection on the board after the spawn: \<open>randomCells\<close> refills the
  queue and ends by calling \<open>popFives\<close>. The cells of the clear-set of that board are
  emptied, the score grows by their number, no line of five is left, and the check for a
  board without empty cells is made: the game is ended exactly when it was ended before or
  no empty cell is left.
\<close>

theorem randomCells_then_popFives:
  assumes "fieldOk (field g)" and "gridShape (cells g)"
    and run: "placeLoop random ballCount 0 [] g = Some (False, obstacles, g1)"
  shows "\<exists>g'. randomCells random g = Some g'
     \<and> g' = snd (popFives (nextColorsRefill random g1))
     \<and> (\<forall>c \<in> set (findFives (ballColors (cells g1))).
           at2 (cells g') c = [] \<and> at2 (field g') c = 0)
     \<and> points g' = points g + card (set (findFives (ballColors (cells g1))))
     \<and> findFives (ballColors (cells g')) = []
     \<and> ended g' = (ended g \<or> countEmpty (field g') = 0)"
proof -
  let ?g2 = "nextColorsRefill random g1"
  let ?g' = "snd (popFives ?g2)"
  have ok: "fieldOk (field ?g2)" "gridShape (cells ?g2)"
    using fieldOk_placeLoop[OF assms(1) run] cells_placeLoop[OF assms(2) run]
    by (simp_all add: nextColorsRefill_simps)
  have fr: "points g1 = points g" "ended g1 = ended g"
    using placeLoop_frame[OF run] by simp_all
  have cleared: "at2 (cells ?g') c = [] \<and> at2 (field ?g') c = 0"
    if "c \<in> set (findFives (ballColors (cells g1)))" for c
  proof -
    have "inBounds c" using that by (rule findFives_inBounds)
    from popFives_at(1)[OF ok(1) this] popFives_at(2)[OF ok(1) this ok(2)] that
    show ?thesis by (simp add: nextColorsRefill_simps)
  qed
  have "card (set (findFives (ballColors (cells g1)))) = length (findFives (ballColors (cells g1)))"
    using distinct_findFives by (rule distinct_card)
  then have "points ?g' = points g + card (set (findFives (ballColors (cells g1))))"
    using popFives_points[OF ok(1)] fr by (simp add: nextColorsRefill_simps)
  moreover have "findFives (ballColors (cells ?g')) = []"
    using ok by (rule popFives_no_five)
  moreover have "ended ?g' = (ended g \<or> countEmpty (field ?g') = 0)"
    using popFives_ended[of ?g2] fr by (simp add: nextColorsRefill_simps)
  ultimately show ?thesis using randomCells_cases[OF run] cleared by simp
qed

text \<open>
  On \<open>lineGap\<close> the red ball of the batch completes the red line at \<open>(0, 4)\<close> and all three
  balls are placed: the line is cleared, five points are scored and the game goes on.
\<close>

theorem randomCells_then_popFives_witness:
  "fieldOk (field lineGap) \<and> gridShape (cells lineGap)
   \<and> placeLoop lineDraws ballCount 0 [] lineGap
        = Some (False, [(0, 4), (8, 7), (8, 8)], lineGapPlaced)
   \<and> findFives (ballColors (cells lineGapPlaced)) = [(0, 0), (0, 1), (0, 2), (0, 3), (0, 4)]
   \<and> map_option (\<lambda>g. (points g, at2 (cells g) (0, 4), at2 (field g) (0, 4),
                       findFives (ballColors (cells g)), ended g))
        (randomCells lineDraws lineGap) = Some (5, [], 0, [], False)"
proof -
  have a: "fieldOk (field lineGap)"
  proof -
    have "\<forall>c \<in> set allCells. at2 (field lineGap) c = 0 \<or> at2 (field lineGap) c = 1"
      by code_simp
    then show ?thesis by (simp add: fieldOk_def gridShape_def lineGap_def Game_size_def)
  qed
  have b: "gridShape (cells lineGap)" by (simp add: gridShape_def lineGap_def Game_size_def)
  have l: "findFives (ballColors (cells lineGapPlaced)) = [(0, 0), (0, 1), (0, 2), (0, 3), (0, 4)]"
    by code_simp
  then have c: "card (set (findFives (ballColors (cells lineGapPlaced)))) = 5" by simp
  have p: "points lineGap = 0" by (simp add: lineGap_def)
  from randomCells_then_popFives[OF a b lineGap_place] obtain g' where
    g': "randomCells lineDraws lineGap = Some g'"
    "g' = snd (popFives (nextColorsRefill lineDraws lineGapPlaced))"
    "\<forall>c \<in> set (findFives (ballColors (cells lineGapPlaced))).
           at2 (cells g') c = [] \<and> at2 (field g') c = 0"
    "points g' = points lineGap + card (set (findFives (ballColors (cells lineGapPlaced))))"
    "findFives (ballColors (cells g')) = []"
    by blast
  have "at2 (cells g') (0, 4) = [] \<and> at2 (field g') (0, 4) = 0" using g'(3) l by simp
  moreover have "ended g' = False" using g'(2) lineGap_popFives(2) by simp
  ultimately have "map_option (\<lambda>g. (points g, at2 (cells g) (0, 4), at2 (field g) (0, 4),
                       findFives (ballColors (cells g)), ended g))
        (randomCells lineDraws lineGap) = Some (5, [], 0, [], False)"
    using g'(1,4,5) c p by simp
  then show ?thesis using a b l lineGap_place by (intro conjI)
qed

lemma initialGame_ok: "fieldOk (field initialGame)" "gridShape (cells initialGame)"
proof -
  have "at2 (field initialGame) c = 0" if "inBounds c" for c
  proof -
    from that have "fst c < 9" "snd c < 9"
      by (simp_all add: inBounds_def Game_size_def)
    then have "nat (fst c) < 9" "nat (snd c) < 9" by linarith+
    then show ?thesis by (simp add: initialGame_def at2_def Game_size_def)
  qed
  then show "fieldOk (field initialGame)"
    by (simp add: fieldOk_def gridShape_def set_allCells initialGame_def)
  show "gridShape (cells initialGame)" by (simp add: gridShape_def initialGame_def)
qed

lemma fieldOk_put2:
  assumes "fieldOk f" "inBounds c" "v = 0 \<or> v = 1"
  shows "fieldOk (put2 f c v)"
proof -
  have shape: "gridShape f" using assms(1) by (simp add: fieldOk_def)
  have "at2 (put2 f c v) c' = 0 \<or> at2 (put2 f c v) c' = 1" if "c' \<in> set allCells" for c'
  proof -
    have "inBounds c'" using that by (simp add: set_allCells)
    then show ?thesis
      using at2_put2[OF shape assms(2), of c' v] assms(1,3) that by (auto simp: fieldOk_def)
  qed
  then show ?thesis using shape by (simp add: fieldOk_def gridShape_put2)
qed

lemma fieldOk_randomCells:
  assumes "fieldOk (field g)" "randomCells random g = Some g'"
  shows "fieldOk (field g')"
proof -
  obtain returned obstacles g1 where
    run: "placeLoop random ballCount 0 [] g = Some (returned, obstacles, g1)"
    using placeLoop_returns[of random ballCount 0 "[]" g] by (metis prod_cases3)
  have ok1: "fieldOk (field g1)" using fieldOk_placeLoop[OF assms(1) run] .
  show ?thesis
  proof (cases returned)
    case True
    then show ?thesis using assms(2) randomCells_cases[OF run] ok1 by simp
  next
    case False
    then have "g' = snd (popFives (nextColorsRefill random g1))"
      using assms(2) randomCells_cases[OF run] by simp
    then show ?thesis
      using fieldOk_popFives[of "nextColorsRefill random g1"] ok1
      by (simp add: nextColorsRefill_simps)
  qed
qed

text \<open>
  The grid holds only \<open>0\<close> and \<open>1\<close> in every state the game reaches: it does in the initial
  state, and \<open>popFives\<close>, \<open>randomCells\<close>, the click handler (called with a coordinate of the
  board, the selection being on the board) and the timer callback keep it so.
\<close>

lemma fieldOk_preserved:
  assumes "fieldOk (field g)"
  shows "fieldOk (field (snd (popFives g)))"
    and "\<And>g'. randomCells random g = Some g' \<Longrightarrow> fieldOk (field g')"
    and "\<And>g'. moveTimeout random popped g = Some g' \<Longrightarrow> fieldOk (field g')"
    and "\<And>g' t sel'. inBounds coords \<Longrightarrow> (\<forall>sel. selectedIndex g = Some sel \<longrightarrow> inBounds sel)
          \<Longrightarrow> handleClicks g coords = Some (g', t)
          \<Longrightarrow> fieldOk (field g') \<and> (selectedIndex g' = Some sel' \<longrightarrow> inBounds sel')"
proof -
  show "fieldOk (field (snd (popFives g)))" using assms by (rule fieldOk_popFives)
  show "fieldOk (field g')" if "randomCells random g = Some g'" for g'
    using assms that by (rule fieldOk_randomCells)
  show "fieldOk (field g')" if "moveTimeout random popped g = Some g'" for g'
    using that assms fieldOk_randomCells[of g random g']
    by (cases popped) (simp_all add: moveTimeout_def)
  show "fieldOk (field g') \<and> (selectedIndex g' = Some sel' \<longrightarrow> inBounds sel')"
    if b: "inBounds coords" and s: "\<forall>sel. selectedIndex g = Some sel \<longrightarrow> inBounds sel"
      and h: "handleClicks g coords = Some (g', t)" for g' t sel'
  proof (cases "firstChild (at2 (cells g) coords) \<noteq> None")
    case True
    then show ?thesis using h assms b s
      by (cases sel') (auto simp: handleClicks_def split: if_splits)
  next
    case False
    show ?thesis
    proof (cases "selectedIndex g")
      case None
      then show ?thesis using h False assms by (auto simp: handleClicks_def)
    next
      case (Some sel)
      obtain result where r: "getPath g sel coords = Some result"
        using getPath_loop_returns unfolding getPath_def by blast
      show ?thesis
      proof (cases "found result")
        case True
        let ?g = "g\<lparr>cells := moveBall (cells g) sel coords,
                   field := put2 (put2 (field g) coords 1) sel 0\<rparr>"
        have g': "g' = (snd (popFives ?g))\<lparr>selectedIndex := None\<rparr>"
          using h False Some r True by (simp add: handleClicks_def split: prod.splits)
        have "inBounds sel" using s Some by simp
        then have "fieldOk (field ?g)" using assms b by (simp add: fieldOk_put2)
        then show ?thesis using g' fieldOk_popFives[of ?g] by simp
      next
        case no: False
        then show ?thesis using h False Some r assms by (auto simp: handleClicks_def)
      qed
    qed
  qed
qed

end
